theory Spec2Isabelle
  imports Main
begin

section \<open>The remote data client\<close>

text \<open>
  The engine of \<^verbatim>\<open>deleter/core.py\<close> talks to the remote store only through
  \<^verbatim>\<open>self.client.get\<close>, \<^verbatim>\<open>self.client.post\<close> and \<^verbatim>\<open>self.client.delete\<close>. Each of
  them either returns the decoded response or raises a classified remote error (a
  subclass of \<^verbatim>\<open>HubspotError\<close>). The client is a parameter of every operation below: a
  step function on a client state of any type, so that a store may answer the same request
  differently over time.
\<close>

datatype remote_error =
  TransportError | ClientError nat | RateLimitError "nat option" | DuplicateError | ServerError nat

text \<open>The exceptions that can leave the engine.\<close>

datatype exn = HubspotError remote_error | ValueError | AttributeError | TypeError

text \<open>A record as the store returns it, and the reference \<^verbatim>\<open>{"id": ...}\<close> the engine keeps.\<close>

datatype hs_object = HsObject (obj_id: string) (obj_properties: "(string \<times> string) list")

datatype record_ref = RecordRef (rid: string)

text \<open>
  A decoded response: \<^verbatim>\<open>response.get("total", 0)\<close>, \<^verbatim>\<open>response.get("results", [])\<close> and
  \<^verbatim>\<open>response.get("paging", {}).get("next", {}).get("after")\<close>. An absent key is the
  default the source reads for it (0, the empty list, \<^verbatim>\<open>None\<close>).
\<close>

record response =
  total :: int
  results :: "hs_object list"
  paging_after :: "string option"

text \<open>One filter dictionary \<^verbatim>\<open>{"propertyName", "operator", "value"?}\<close>.\<close>

record hs_filter =
  propertyName :: string
  operator :: string
  filter_value :: "string option"

text \<open>The body of a search request, as \<^verbatim>\<open>_create_search_payload\<close> builds it.\<close>

record search_payload =
  filterGroups :: "hs_filter list list"
  sorts :: "(string \<times> string) list"
  limit :: nat
  after :: "string option"

datatype body = SearchBody search_payload | ArchiveBody "record_ref list"

datatype request =
  Get string nat "string option"
  | Post string body
  | Delete string

type_synonym 's client = "request \<Rightarrow> 's \<Rightarrow> (remote_error + response) \<times> 's"

text \<open>
  The world an operation runs in: the state of the client, and the list of the calls made
  so far, each with its outcome.
\<close>

record 's world =
  cstate :: 's
  calls :: "(request \<times> (remote_error + response)) list"

definition call :: "'s client \<Rightarrow> request \<Rightarrow> 's world \<Rightarrow> (remote_error + response) \<times> 's world" where
  "call cl req w =
     (case cl req (cstate w) of
        (r, s') \<Rightarrow> (r, \<lparr>cstate = s', calls = calls w @ [(req, r)]\<rparr>))"

text \<open>Python's truth value of a cursor: \<^verbatim>\<open>None\<close> and the empty string are false.\<close>

definition truthy :: "string option \<Rightarrow> bool" where
  "truthy a = (case a of None \<Rightarrow> False | Some s \<Rightarrow> s \<noteq> [])"

section \<open>Python's \<^verbatim>\<open>str\<close> on integers\<close>

definition digit_char :: "nat \<Rightarrow> char" where
  "digit_char d = ''0123456789'' ! d"

fun str_nat :: "nat \<Rightarrow> string" where
  "str_nat n = (if n < 10 then [digit_char n] else str_nat (n div 10) @ [digit_char (n mod 10)])"

declare str_nat.simps [simp del]

definition py_str :: "int \<Rightarrow> string" where
  "py_str i = (if i < 0 then CHR ''-'' # str_nat (nat (- i)) else str_nat (nat i))"

section \<open>The Batch Deleter\<close>

text \<open>
  \<^verbatim>\<open>_delete_records\<close>: the inner loop deletes the records of a failed chunk one by one;
  a failed individual delete is logged and the loop goes on.
\<close>

fun delete_individually :: "'s client \<Rightarrow> string \<Rightarrow> record_ref list \<Rightarrow> nat \<times> 's world \<Rightarrow> nat \<times> 's world" where
  "delete_individually cl object_type [] (deleted_count, w) = (deleted_count, w)"
| "delete_individually cl object_type (r # rs) (deleted_count, w) =
     (case call cl (Delete (''/crm/v3/objects/'' @ object_type @ ''/'' @ rid r)) w of
        (Inr _, w') \<Rightarrow> delete_individually cl object_type rs (deleted_count + 1, w')
      | (Inl _, w') \<Rightarrow> delete_individually cl object_type rs (deleted_count, w'))"

text \<open>The body of the outer loop, for one chunk \<^verbatim>\<open>batch = records[i:i+batch_size]\<close>.\<close>

definition delete_batch :: "'s client \<Rightarrow> string \<Rightarrow> record_ref list \<Rightarrow> nat \<times> 's world \<Rightarrow> nat \<times> 's world" where
  "delete_batch cl object_type batch st =
     (case st of (deleted_count, w) \<Rightarrow>
        (case call cl (Post (''/crm/v3/objects/'' @ object_type @ ''/batch/archive'')
                            (ArchiveBody (map (\<lambda>r. RecordRef (rid r)) batch))) w of
           (Inr _, w') \<Rightarrow> (deleted_count + length batch, w')
         | (Inl _, w') \<Rightarrow> delete_individually cl object_type batch (deleted_count, w')))"

text \<open>\<^verbatim>\<open>range(0, n, step)\<close> for a positive step.\<close>

definition py_range :: "nat \<Rightarrow> nat \<Rightarrow> nat list" where
  "py_range n step = map (\<lambda>k. k * step) [0..<(n + step - 1) div step]"

definition delete_records :: "'s client \<Rightarrow> string \<Rightarrow> record_ref list \<Rightarrow> 's world \<Rightarrow> nat \<times> 's world" where
  "delete_records cl object_type records w =
     fold (\<lambda>i. delete_batch cl object_type (take 100 (drop i records)))
          (py_range (length records) 100) (0, w)"

section \<open>The Full List Enumerator\<close>

text \<open>
  \<^verbatim>\<open>_get_all_records_by_type\<close>: the \<^verbatim>\<open>while True\<close> loop, with the cursor and the
  records collected so far as arguments. The \<^verbatim>\<open>except HubspotError\<close> clause around the
  loop only logs, so an error ends the walk with what was collected. The loop runs as long
  as the store hands out cursors: a walk that never returns has the value \<open>None\<close>.
\<close>

partial_function (option) list_walk ::
  "'s client \<Rightarrow> string \<Rightarrow> string option \<Rightarrow> record_ref list \<Rightarrow> 's world
     \<Rightarrow> (record_ref list \<times> 's world) option" where
  "list_walk cl object_type after_cursor all_records w =
     (case call cl (Get (''/crm/v3/objects/'' @ object_type) 100
                        (if truthy after_cursor then after_cursor else None)) w of
        (Inl e, w') \<Rightarrow> Some (all_records, w')
      | (Inr resp, w') \<Rightarrow>
          (let all_records' = all_records @ map (\<lambda>r. RecordRef (obj_id r)) (results resp);
               after' = paging_after resp
           in if \<not> truthy after' then Some (all_records', w')
              else list_walk cl object_type after' all_records' w'))"

declare list_walk.simps [code]

definition get_all_records_by_type ::
  "'s client \<Rightarrow> string \<Rightarrow> 's world \<Rightarrow> (record_ref list \<times> 's world) option" where
  "get_all_records_by_type cl object_type w = list_walk cl object_type None [] w"

section \<open>The Filtered Search Enumerator\<close>

text \<open>
  The \<^verbatim>\<open>filters\<close> argument of \<^verbatim>\<open>_search_records\<close> is a list of filter dictionaries
  when it comes from \<^verbatim>\<open>delete_by_property\<close> or from the date criteria, and the caller's
  query, declared \<^verbatim>\<open>query: str\<close>, when it comes from \<^verbatim>\<open>delete_by_query\<close>.
\<close>

datatype filters_arg = FilterList "hs_filter list" | QueryStr string

text \<open>
  \<^verbatim>\<open>_add_id_threshold_filter\<close> starts with \<^verbatim>\<open>base_filters.copy()\<close>: a list has that
  method, a \<^verbatim>\<open>str\<close> has not, and the call raises \<^verbatim>\<open>AttributeError\<close>.
\<close>

definition add_id_threshold_filter :: "filters_arg \<Rightarrow> int \<Rightarrow> exn + hs_filter list" where
  "add_id_threshold_filter base_filters threshold_id =
     (case base_filters of
        QueryStr _ \<Rightarrow> Inl AttributeError
      | FilterList fs \<Rightarrow>
          Inr (fs @ [\<lparr>propertyName = ''hs_object_id'', operator = ''GT'',
                      filter_value = Some (py_str threshold_id)\<rparr>]))"

definition create_search_payload :: "hs_filter list \<Rightarrow> nat \<Rightarrow> search_payload" where
  "create_search_payload filters lim =
     \<lparr>filterGroups = [filters], sorts = [(''hs_object_id'', ''ASCENDING'')],
      limit = lim, after = None\<rparr>"

definition search_endpoint :: "string \<Rightarrow> string" where
  "search_endpoint object_type = ''/crm/v3/objects/'' @ object_type @ ''/search''"

text \<open>
  The \<^verbatim>\<open>for record in results\<close> loop of \<^verbatim>\<open>_process_search_batch\<close>. \<^verbatim>\<open>int(record_id)\<close>
  is Python's own conversion, a parameter \<open>py_int\<close> here, \<open>None\<close> where it raises
  \<^verbatim>\<open>ValueError\<close>.
\<close>

fun collect_page ::
  "(string \<Rightarrow> int option) \<Rightarrow> hs_object list \<Rightarrow> record_ref list \<Rightarrow> int \<Rightarrow> exn + (record_ref list \<times> int)" where
  "collect_page py_int [] batch_records last_id = Inr (batch_records, last_id)"
| "collect_page py_int (r # rs) batch_records last_id =
     (case py_int (obj_id r) of
        None \<Rightarrow> Inl ValueError
      | Some i \<Rightarrow> collect_page py_int rs (batch_records @ [RecordRef (obj_id r)]) i)"

text \<open>
  The \<^verbatim>\<open>while after\<close> loop of \<^verbatim>\<open>_process_search_batch\<close>. The payload is the
  dictionary of the leg's first request, and \<^verbatim>\<open>payload["after"] = after\<close> overwrites its
  cursor. The test for 10000 records comes after the page has been read.
\<close>

partial_function (option) paginate ::
  "(string \<Rightarrow> int option) \<Rightarrow> 's client \<Rightarrow> string \<Rightarrow> search_payload \<Rightarrow> string option
     \<Rightarrow> record_ref list \<Rightarrow> int \<Rightarrow> 's world
     \<Rightarrow> ((exn + (record_ref list \<times> int)) \<times> 's world) option" where
  "paginate py_int cl object_type payload after_cursor batch_records last_id w =
     (if \<not> truthy after_cursor then Some (Inr (batch_records, last_id), w)
      else
        (case call cl (Post (search_endpoint object_type)
                            (SearchBody (payload\<lparr>after := after_cursor\<rparr>))) w of
           (Inl e, w') \<Rightarrow> Some (Inl (HubspotError e), w')
         | (Inr resp, w') \<Rightarrow>
             (case collect_page py_int (results resp) batch_records last_id of
                Inl x \<Rightarrow> Some (Inl x, w')
              | Inr (batch_records', last_id') \<Rightarrow>
                  if 10000 \<le> length batch_records' then Some (Inr (batch_records', last_id'), w')
                  else paginate py_int cl object_type (payload\<lparr>after := after_cursor\<rparr>)
                         (paging_after resp) batch_records' last_id' w')))"

declare paginate.simps [code]

definition process_search_batch ::
  "(string \<Rightarrow> int option) \<Rightarrow> 's client \<Rightarrow> string \<Rightarrow> response \<Rightarrow> search_payload \<Rightarrow> 's world
     \<Rightarrow> ((exn + (record_ref list \<times> int)) \<times> 's world) option" where
  "process_search_batch py_int cl object_type initial_response request_payload w =
     (case collect_page py_int (results initial_response) [] 0 of
        Inl x \<Rightarrow> Some (Inl x, w)
      | Inr (batch_records, last_id) \<Rightarrow>
          paginate py_int cl object_type request_payload (paging_after initial_response)
            batch_records last_id w)"

text \<open>
  The \<^verbatim>\<open>while True\<close> loop of \<^verbatim>\<open>_search_records\<close>, one leg per turn. The
  \<^verbatim>\<open>except HubspotError\<close> clause logs and raises again, and any other exception passes
  through it.
\<close>

partial_function (option) search_loop ::
  "(string \<Rightarrow> int option) \<Rightarrow> 's client \<Rightarrow> string \<Rightarrow> filters_arg \<Rightarrow> record_ref list \<Rightarrow> int
     \<Rightarrow> 's world \<Rightarrow> ((exn + record_ref list) \<times> 's world) option" where
  "search_loop py_int cl object_type filters all_records last_record_id w =
     (case add_id_threshold_filter filters last_record_id of
        Inl x \<Rightarrow> Some (Inl x, w)
      | Inr current_filters \<Rightarrow>
          (case call cl (Post (search_endpoint object_type)
                              (SearchBody (create_search_payload current_filters 200))) w of
             (Inl e, w') \<Rightarrow> Some (Inl (HubspotError e), w')
           | (Inr resp, w') \<Rightarrow>
               if total resp = 0 then Some (Inr all_records, w')
               else
                 (case process_search_batch py_int cl object_type resp
                         (create_search_payload current_filters 200) w' of
                    None \<Rightarrow> None
                  | Some (Inl x, w'') \<Rightarrow> Some (Inl x, w'')
                  | Some (Inr (batch_records, last_id), w'') \<Rightarrow>
                      if total resp < 10000 then Some (Inr (all_records @ batch_records), w'')
                      else search_loop py_int cl object_type filters
                             (all_records @ batch_records) last_id w'')))"

declare search_loop.simps [code]

definition search_records ::
  "(string \<Rightarrow> int option) \<Rightarrow> 's client \<Rightarrow> string \<Rightarrow> filters_arg \<Rightarrow> 's world
     \<Rightarrow> ((exn + record_ref list) \<times> 's world) option" where
  "search_records py_int cl object_type filters w =
     search_loop py_int cl object_type filters [] 0 w"

section \<open>The Orchestrator\<close>

definition get_all_object_types :: "string list" where
  "get_all_object_types =
     [''contacts'', ''companies'', ''deals'', ''tickets'', ''notes'', ''emails'', ''tasks'',
      ''meetings'', ''calls'']"

definition get_custom_object_types :: "string list" where
  "get_custom_object_types = []"

text \<open>
  A \<^verbatim>\<open>datetime\<close>: its wall-clock reading and its \<^verbatim>\<open>tzinfo\<close> attribute, \<open>None\<close> or a
  time zone object. The object answers \<^verbatim>\<open>utcoffset()\<close> with an offset or with \<^verbatim>\<open>None\<close>,
  and the library takes a \<^verbatim>\<open>datetime\<close> for naive when it has no \<^verbatim>\<open>tzinfo\<close> or one that
  gives no offset. The conversion
  \<^verbatim>\<open>int(timestamp.astimezone(timezone.utc).timestamp() * 1000)\<close> is the library's, the
  parameter \<open>utc_millis\<close> here; it reads a naive \<^verbatim>\<open>datetime\<close> as local time.
\<close>

datatype py_tzinfo = Tzinfo (utcoffset: "int option")

record py_datetime =
  wall_clock :: int
  tzinfo :: "py_tzinfo option"

definition build_date_filter :: "(py_datetime \<Rightarrow> int) \<Rightarrow> string \<Rightarrow> py_datetime \<Rightarrow> exn + hs_filter" where
  "build_date_filter utc_millis property_name timestamp =
     (if tzinfo timestamp = None then Inl ValueError
      else Inr \<lparr>propertyName = property_name, operator = ''GTE'',
                filter_value = Some (py_str (utc_millis timestamp))\<rparr>)"

definition build_property_exists_filter :: "string \<Rightarrow> hs_filter" where
  "build_property_exists_filter property_name =
     \<lparr>propertyName = property_name, operator = ''HAS_PROPERTY'', filter_value = None\<rparr>"

text \<open>
  \<^verbatim>\<open>_get_records_by_date_criteria\<close>. A \<^verbatim>\<open>datetime\<close> is always true in a condition, so
  \<^verbatim>\<open>if created_after\<close> asks whether one was given.
\<close>

definition get_records_by_date_criteria ::
  "(string \<Rightarrow> int option) \<Rightarrow> (py_datetime \<Rightarrow> int) \<Rightarrow> 's client \<Rightarrow> string
     \<Rightarrow> py_datetime option \<Rightarrow> py_datetime option \<Rightarrow> 's world
     \<Rightarrow> ((exn + record_ref list) \<times> 's world) option" where
  "get_records_by_date_criteria py_int utc_millis cl object_type created_after modified_after w =
     (case (case created_after of
              None \<Rightarrow> Inr []
            | Some ts \<Rightarrow> (case build_date_filter utc_millis ''createdate'' ts of
                           Inl x \<Rightarrow> Inl x | Inr f \<Rightarrow> Inr [f])) of
        Inl x \<Rightarrow> Some (Inl x, w)
      | Inr filters1 \<Rightarrow>
          (case (case modified_after of
                   None \<Rightarrow> Inr filters1
                 | Some ts \<Rightarrow> (case build_date_filter utc_millis ''lastmodifieddate'' ts of
                                Inl x \<Rightarrow> Inl x | Inr f \<Rightarrow> Inr (filters1 @ [f]))) of
             Inl x \<Rightarrow> Some (Inl x, w)
           | Inr filters \<Rightarrow>
               if filters = [] then Some (Inr [], w)
               else search_records py_int cl object_type (FilterList filters) w))"

text \<open>
  The \<^verbatim>\<open>for object_type in object_types\<close> loop of \<^verbatim>\<open>delete_by_date_criteria\<close>, with the
  dictionary \<^verbatim>\<open>deletion_counts\<close> as a map.
\<close>

fun date_criteria_loop ::
  "(string \<Rightarrow> int option) \<Rightarrow> (py_datetime \<Rightarrow> int) \<Rightarrow> 's client
     \<Rightarrow> py_datetime option \<Rightarrow> py_datetime option \<Rightarrow> string list \<Rightarrow> (string \<rightharpoonup> nat) \<Rightarrow> 's world
     \<Rightarrow> ((exn + (string \<rightharpoonup> nat)) \<times> 's world) option" where
  "date_criteria_loop py_int utc_millis cl created_after modified_after [] deletion_counts w =
     Some (Inr deletion_counts, w)"
| "date_criteria_loop py_int utc_millis cl created_after modified_after (object_type # rest)
       deletion_counts w =
     (case get_records_by_date_criteria py_int utc_millis cl object_type
             created_after modified_after w of
        None \<Rightarrow> None
      | Some (Inl x, w') \<Rightarrow> Some (Inl x, w')
      | Some (Inr records, w') \<Rightarrow>
          (case delete_records cl object_type records w' of
             (count, w'') \<Rightarrow>
               date_criteria_loop py_int utc_millis cl created_after modified_after rest
                 (deletion_counts(object_type \<mapsto> count)) w''))"

definition delete_by_date_criteria ::
  "(string \<Rightarrow> int option) \<Rightarrow> (py_datetime \<Rightarrow> int) \<Rightarrow> 's client
     \<Rightarrow> py_datetime option \<Rightarrow> py_datetime option \<Rightarrow> string list option \<Rightarrow> 's world
     \<Rightarrow> ((exn + (string \<rightharpoonup> nat)) \<times> 's world) option" where
  "delete_by_date_criteria py_int utc_millis cl created_after modified_after object_types w =
     date_criteria_loop py_int utc_millis cl created_after modified_after
       (case object_types of
          None \<Rightarrow> get_all_object_types @ get_custom_object_types
        | Some ots \<Rightarrow> ots)
       Map.empty w"

definition delete_by_query ::
  "(string \<Rightarrow> int option) \<Rightarrow> 's client \<Rightarrow> string \<Rightarrow> filters_arg \<Rightarrow> 's world
     \<Rightarrow> ((exn + nat) \<times> 's world) option" where
  "delete_by_query py_int cl object_type query w =
     (case search_records py_int cl object_type query w of
        None \<Rightarrow> None
      | Some (Inl x, w') \<Rightarrow> Some (Inl x, w')
      | Some (Inr records, w') \<Rightarrow>
          (case delete_records cl object_type records w' of
             (deleted_count, w'') \<Rightarrow> Some (Inr deleted_count, w'')))"

text \<open>
  What \<^verbatim>\<open>csv.DictReader\<close> makes of the file: the field names of the header (\<^verbatim>\<open>None\<close>
  for a file without one) and the rows, each a dictionary over the field names whose value
  is \<^verbatim>\<open>None\<close> where the row is short.
\<close>

record csv_table =
  fieldnames :: "string list option"
  csv_rows :: "(string \<rightharpoonup> string) list"



text \<open>
  \<^verbatim>\<open>_read_csv_records\<close>, a helper that no operation calls: it sorts the rows by their
  \<^verbatim>\<open>object_type\<close> column, with \<^verbatim>\<open>contacts\<close> where the column or the value is missing.
\<close>

fun group_csv_rows ::
  "string \<Rightarrow> bool \<Rightarrow> (string \<rightharpoonup> string) list \<Rightarrow> (string \<rightharpoonup> record_ref list)
     \<Rightarrow> (string \<rightharpoonup> record_ref list)" where
  "group_csv_rows id_column has_object_type [] records_by_type = records_by_type"
| "group_csv_rows id_column has_object_type (row # rows) records_by_type =
     (case row id_column of
        None \<Rightarrow> group_csv_rows id_column has_object_type rows records_by_type
      | Some record_id \<Rightarrow>
          if record_id = [] then group_csv_rows id_column has_object_type rows records_by_type
          else
            (let object_type =
                   (case row ''object_type'' of
                      None \<Rightarrow> ''contacts''
                    | Some t \<Rightarrow> if has_object_type \<and> t \<noteq> [] then t else ''contacts'');
                 existing = (case records_by_type object_type of None \<Rightarrow> [] | Some rs \<Rightarrow> rs)
             in group_csv_rows id_column has_object_type rows
                  (records_by_type(object_type \<mapsto> existing @ [RecordRef record_id]))))"

definition read_csv_records ::
  "csv_table \<Rightarrow> string \<Rightarrow> exn + (string \<rightharpoonup> record_ref list)" where
  "read_csv_records csv_file id_column =
     (case fieldnames csv_file of
        None \<Rightarrow> Inl TypeError
      | Some names \<Rightarrow>
          if id_column \<notin> set names then Inl ValueError
          else Inr (group_csv_rows id_column (''object_type'' \<in> set names)
                      (csv_rows csv_file) Map.empty))"

section \<open>Stores and traces used to state the properties\<close>

text \<open>
  A store that answers from a fixed list of responses, whatever it is asked, and fails with
  a transport error once the list is used up. What the engine does depends on the store
  only through the responses it gets, so a property shown for every list of responses holds
  for every store that answers in finitely many steps.
\<close>

definition script_client :: "(remote_error + response) list client" where
  "script_client req s = (case s of [] \<Rightarrow> (Inl TransportError, []) | r # rs \<Rightarrow> (r, rs))"

text \<open>
  A trace of calls replayed against a client from a given state: every outcome in the trace
  is the answer the client gives to the request beside it, in the state the calls before
  it have left. The result is the state after the last call, and \<open>None\<close> when some outcome
  of the trace is not the client's answer.
\<close>

fun replay :: "'s client \<Rightarrow> 's \<Rightarrow> (request \<times> (remote_error + response)) list \<Rightarrow> 's option" where
  "replay cl s [] = Some s"
| "replay cl s ((req, out) # tr) =
     (case cl req s of (out', s') \<Rightarrow> if out' = out then replay cl s' tr else None)"

text \<open>The pages a trace of calls has read: the responses of its successful calls, in order.\<close>

fun pages_read :: "(request \<times> (remote_error + response)) list \<Rightarrow> response list" where
  "pages_read [] = []"
| "pages_read ((req, out) # tr) =
     (case out of Inl _ \<Rightarrow> pages_read tr | Inr resp \<Rightarrow> resp # pages_read tr)"

text \<open>The partition of a list into chunks of \<open>n\<close>, the last one possibly shorter.\<close>

fun chunks_of :: "nat \<Rightarrow> 'a list \<Rightarrow> 'a list list" where
  "chunks_of n xs = (if n = 0 \<or> xs = [] then [] else take n xs # chunks_of n (drop n xs))"

declare chunks_of.simps [simp del]

text \<open>The two requests of the Batch Deleter.\<close>

definition archive_request :: "string \<Rightarrow> record_ref list \<Rightarrow> request" where
  "archive_request object_type chunk =
     Post (''/crm/v3/objects/'' @ object_type @ ''/batch/archive'') (ArchiveBody chunk)"

definition delete_request :: "string \<Rightarrow> record_ref \<Rightarrow> request" where
  "delete_request object_type r = Delete (''/crm/v3/objects/'' @ object_type @ ''/'' @ rid r)"

text \<open>
  What one call adds to the confirmed count: the size of the chunk for a bulk archive that
  succeeded, one for an individual delete that succeeded, nothing for a call that failed.
\<close>

fun confirmed :: "request \<times> (remote_error + response) \<Rightarrow> nat" where
  "confirmed (Post _ (ArchiveBody ids), Inr _) = length ids"
| "confirmed (Delete _, Inr _) = 1"
| "confirmed _ = 0"

text \<open>
  The calls the Batch Deleter is to make for a list of chunks, read off a trace of calls
  with their outcomes: for each chunk in turn one bulk archive of the whole chunk, followed,
  when it failed, by one individual delete for each record of the chunk, in order, whatever
  their outcomes; and nothing else.
\<close>

fun chunk_calls :: "string \<Rightarrow> record_ref list list \<Rightarrow> (request \<times> (remote_error + response)) list \<Rightarrow> bool" where
  "chunk_calls object_type [] tr = (tr = [])"
| "chunk_calls object_type (c # cs) tr =
     (case tr of
        [] \<Rightarrow> False
      | (req, out) # rest \<Rightarrow>
          req = archive_request object_type c \<and>
          (case out of
             Inr _ \<Rightarrow> chunk_calls object_type cs rest
           | Inl _ \<Rightarrow>
               map fst (take (length c) rest) = map (delete_request object_type) c \<and>
               chunk_calls object_type cs (drop (length c) rest)))"

text \<open>
  The pagination requests of one leg, read off a trace of calls with their outcomes, for a
  leg that holds \<open>n\<close> records when the trace starts and whose latest page gave the cursor
  \<open>cursor\<close>: each request was made while the cursor was present and fewer than 10000
  records had accumulated, it is the leg's own payload with only that cursor put in, and
  the next request follows the cursor of the page just read. A failed request is the last.
\<close>

fun drain_calls ::
  "string \<Rightarrow> search_payload \<Rightarrow> string option \<Rightarrow> nat
     \<Rightarrow> (request \<times> (remote_error + response)) list \<Rightarrow> bool" where
  "drain_calls object_type payload cursor n [] = True"
| "drain_calls object_type payload cursor n ((req, out) # tr) =
     (truthy cursor \<and> n < 10000 \<and>
      req = Post (search_endpoint object_type) (SearchBody (payload\<lparr>after := cursor\<rparr>)) \<and>
      (case out of
         Inl _ \<Rightarrow> tr = []
       | Inr resp \<Rightarrow>
           drain_calls object_type payload (paging_after resp) (n + length (results resp)) tr))"

text \<open>
  A store that answers every request with a page that reports 10000 matches, holds no
  record and carries no cursor.
\<close>

definition stalled_store :: "unit client" where
  "stalled_store req s = (Inr \<lparr>total = 10000, results = [], paging_after = None\<rparr>, s)"

text \<open>
  Python's \<^verbatim>\<open>int\<close> on a string of decimal digits, which is all the identifiers and
  cursors of the store below are: \<open>None\<close>, for \<^verbatim>\<open>ValueError\<close>, on the empty string and
  on any other character.
\<close>

definition digit_of :: "char \<Rightarrow> nat option" where
  "digit_of c =
     map_of [(CHR ''0'', 0), (CHR ''1'', 1), (CHR ''2'', 2), (CHR ''3'', 3), (CHR ''4'', 4),
             (CHR ''5'', 5), (CHR ''6'', 6), (CHR ''7'', 7), (CHR ''8'', 8), (CHR ''9'', 9)] c"

fun parse_digits :: "string \<Rightarrow> nat \<Rightarrow> nat option" where
  "parse_digits [] acc = Some acc"
| "parse_digits (c # cs) acc =
     (case digit_of c of None \<Rightarrow> None | Some d \<Rightarrow> parse_digits cs (10 * acc + d))"

definition decimal_int :: "string \<Rightarrow> int option" where
  "decimal_int s = (if s = [] then None else map_option int (parse_digits s 0))"

text \<open>
  Whether record \<open>i\<close> of the store below satisfies a filter. The predicate the engine adds,
  \<^verbatim>\<open>hs_object_id GT v\<close>, holds when the identifier is above \<open>v\<close>; any other filter is the
  caller's, and \<open>sat\<close> decides it.
\<close>

definition filter_holds ::
  "(string \<Rightarrow> int option) \<Rightarrow> (hs_filter \<Rightarrow> nat \<Rightarrow> bool) \<Rightarrow> hs_filter \<Rightarrow> nat \<Rightarrow> bool" where
  "filter_holds dec sat f i =
     (if propertyName f = ''hs_object_id'' \<and> operator f = ''GT''
      then (case filter_value f of
              None \<Rightarrow> False
            | Some v \<Rightarrow> (case dec v of None \<Rightarrow> False | Some t \<Rightarrow> t < int i))
      else sat f i)"

text \<open>
  Modelled from the spec: the synthetic store of \<open>N\<close> records bearing the ascending ids
  \<open>1..N\<close>, as a search endpoint. A search request is answered from the records that satisfy
  every filter of one of its filter groups, in ascending order of identifier when the
  request sorts by \<^verbatim>\<open>hs_object_id ASCENDING\<close> and in descending order otherwise. The cursor
  is the number of records to skip; a page holds at most \<^verbatim>\<open>limit\<close> records and carries a
  cursor while records remain after it. A cursor that is not a number, or one at the depth
  ceiling of 10000 or beyond, is refused. The total reported is the number of matching
  records, capped at 10000 when \<open>capped\<close>. Any other request is refused.
\<close>

definition synthetic_store ::
  "(string \<Rightarrow> int option) \<Rightarrow> (hs_filter \<Rightarrow> nat \<Rightarrow> bool) \<Rightarrow> bool \<Rightarrow> nat \<Rightarrow> unit client" where
  "synthetic_store dec sat capped N req s =
     (case req of
        Post endpoint (SearchBody p) \<Rightarrow>
          (let matching =
                 filter (\<lambda>i. list_ex (list_all (\<lambda>f. filter_holds dec sat f i)) (filterGroups p))
                   [1..<Suc N];
               ordered = (if sorts p = [(''hs_object_id'', ''ASCENDING'')] then matching
                          else rev matching);
               offset = (case after p of
                           None \<Rightarrow> Some 0
                         | Some c \<Rightarrow> (case dec c of
                                        None \<Rightarrow> None
                                      | Some k \<Rightarrow> if k < 0 then None else Some (nat k)))
           in case offset of
                None \<Rightarrow> (Inl (ClientError 400), s)
              | Some off \<Rightarrow>
                  if 10000 \<le> off then (Inl (ClientError 400), s)
                  else
                    (Inr \<lparr>total = int (if capped then min (length matching) 10000
                                         else length matching),
                          results = map (\<lambda>i. HsObject (py_str (int i)) [])
                                      (take (limit p) (drop off ordered)),
                          paging_after = (if off + limit p < length matching
                                          then Some (py_str (int (off + limit p))) else None)\<rparr>,
                     s))
      | _ \<Rightarrow> (Inl (ClientError 404), s))"

section \<open>Properties of the Batch Deleter\<close>

lemma delete_records_Nil: "delete_records cl object_type [] w = (0, w)"
  by (simp add: delete_records_def py_range_def)

section \<open>Properties of the Orchestrator\<close>

lemma date_criteria_loop_no_dates:
  "date_criteria_loop py_int utc_millis cl None None ots m w =
     Some (Inr (\<lambda>ot. if ot \<in> set ots then Some 0 else m ot), w)"
proof (induction ots arbitrary: m)
  case Nil
  show ?case by simp
next
  case (Cons ot ots)
  have "(\<lambda>x. if x \<in> set ots then Some 0 else (m(ot \<mapsto> 0)) x) =
        (\<lambda>x. if x \<in> set (ot # ots) then Some (0::nat) else m x)"
    by (rule ext) simp
  then show ?case
    by (simp add: get_records_by_date_criteria_def delete_records_Nil Cons.IH)
qed

text \<open>
  C10. With neither \<^verbatim>\<open>created_after\<close> nor \<^verbatim>\<open>modified_after\<close>, \<^verbatim>\<open>delete_by_date_criteria\<close>
  returns, for any client, any state of it and any choice of object types (\<open>None\<close> stands
  for all of them), the map that gives 0 to each object type processed and is undefined
  elsewhere; the world it returns is the one it started in, so no call, search or delete,
  was made.
\<close>

theorem no_date_criteria_deletes_nothing:
  "delete_by_date_criteria py_int utc_millis cl None None object_types w =
     Some (Inr (\<lambda>ot. if ot \<in> set (case object_types of
                                      None \<Rightarrow> get_all_object_types @ get_custom_object_types
                                    | Some ots \<Rightarrow> ots)
                     then Some 0 else None), w)"
  by (simp add: delete_by_date_criteria_def date_criteria_loop_no_dates)

lemma div_step: "0 < (n::nat) \<Longrightarrow> (n + 100 - 1) div 100 = Suc ((n - 100 + 100 - 1) div 100)"
proof (cases "n < 100")
  case True
  assume "0 < n"
  with True have "(n + 100 - 1) div 100 = 1" by simp
  with True show ?thesis by simp
next
  case False
  then have "n + 100 - 1 = (n - 100 + 100 - 1) + 100" by simp
  then have "(n + 100 - 1) div 100 = ((n - 100 + 100 - 1) + 100) div 100" by simp
  then show ?thesis by (simp only: div_add_self2)
qed

lemma upt_shift: "map (\<lambda>k. k * 100) [0..<Suc m] = 0 # map ((+) 100) (map (\<lambda>k. k * (100::nat)) [0..<m])"
proof -
  have "[0..<Suc m] = 0 # map Suc [0..<m]"
    by (simp add: upt_conv_Cons map_Suc_upt del: upt_Suc)
  then show ?thesis by (simp add: comp_def del: upt_Suc)
qed

lemma py_range_step:
  assumes "0 < n"
  shows "py_range n 100 = 0 # map ((+) 100) (py_range (n - 100) 100)"
proof -
  have "py_range n 100 = map (\<lambda>k. k * 100) [0..<Suc ((n - 100 + 100 - 1) div 100)]"
    unfolding py_range_def using div_step [OF assms] by (simp only:)
  also have "\<dots> = 0 # map ((+) 100) (py_range (n - 100) 100)"
    unfolding py_range_def by (rule upt_shift)
  finally show ?thesis .
qed

lemma fold_shift:
  "fold (\<lambda>i. f (take 100 (drop i rs))) (map ((+) 100) js) st =
   fold (\<lambda>i. f (take 100 (drop i (drop 100 rs)))) js st"
  by (simp add: fold_map comp_def add.commute)

lemma delete_loop_step:
  assumes "rs \<noteq> []"
  shows "fold (\<lambda>i. delete_batch cl ot (take 100 (drop i rs))) (py_range (length rs) 100) st =
         fold (\<lambda>i. delete_batch cl ot (take 100 (drop i (drop 100 rs))))
              (py_range (length (drop 100 rs)) 100) (delete_batch cl ot (take 100 rs) st)"
  using assms by (simp add: py_range_step [of "length rs"] fold_shift)

lemma call_script:
  "call script_client req \<lparr>cstate = r # rs, calls = l\<rparr> = (r, \<lparr>cstate = rs, calls = l @ [(req, r)]\<rparr>)"
  by (simp add: call_def script_client_def)

lemma replay_append:
  "replay cl s t1 = Some s1 \<Longrightarrow> replay cl s (t1 @ t2) = replay cl s1 t2"
proof (induction t1 arbitrary: s)
  case Nil
  then show ?case by simp
next
  case (Cons p t1)
  obtain req out where p: "p = (req, out)" by (cases p)
  obtain out' s' where c: "cl req s = (out', s')" by (cases "cl req s")
  from Cons.prems p c have "out' = out" and "replay cl s' t1 = Some s1"
    by (simp_all split: if_splits)
  with Cons.IH [of s'] p c show ?case by simp
qed

lemma delete_individually_calls:
  "\<exists>tr. calls (snd (delete_individually cl ot c (n, w))) = calls w @ tr \<and>
        replay cl (cstate w) tr = Some (cstate (snd (delete_individually cl ot c (n, w)))) \<and>
        map fst tr = map (delete_request ot) c \<and>
        fst (delete_individually cl ot c (n, w)) = n + sum_list (map confirmed tr)"
proof (induction c arbitrary: n w)
  case Nil
  show ?case by simp
next
  case (Cons r c)
  obtain out s' where cl: "cl (delete_request ot r) (cstate w) = (out, s')"
    by (cases "cl (delete_request ot r) (cstate w)")
  define w1 where "w1 = \<lparr>cstate = s', calls = calls w @ [(delete_request ot r, out)]\<rparr>"
  define n1 where "n1 = n + confirmed (delete_request ot r, out)"
  have step: "delete_individually cl ot (r # c) (n, w) = delete_individually cl ot c (n1, w1)"
    using cl by (cases out) (simp_all add: call_def delete_request_def w1_def n1_def)
  from Cons.IH [of n1 w1] obtain tr where
    tr: "calls (snd (delete_individually cl ot c (n1, w1))) = calls w1 @ tr"
        "replay cl (cstate w1) tr = Some (cstate (snd (delete_individually cl ot c (n1, w1))))"
        "map fst tr = map (delete_request ot) c"
        "fst (delete_individually cl ot c (n1, w1)) = n1 + sum_list (map confirmed tr)"
    by blast
  have "calls (snd (delete_individually cl ot (r # c) (n, w))) =
          calls w @ (delete_request ot r, out) # tr"
    using tr(1) unfolding step w1_def by simp
  moreover have "replay cl (cstate w) ((delete_request ot r, out) # tr) =
          Some (cstate (snd (delete_individually cl ot (r # c) (n, w))))"
    using tr(2) cl unfolding step w1_def by simp
  moreover have "map fst ((delete_request ot r, out) # tr) = map (delete_request ot) (r # c)"
    using tr(3) by simp
  moreover have "fst (delete_individually cl ot (r # c) (n, w)) =
          n + sum_list (map confirmed ((delete_request ot r, out) # tr))"
    using tr(4) unfolding step n1_def by simp
  ultimately show ?case by blast
qed

lemma delete_batch_calls:
  "\<exists>tr. calls (snd (delete_batch cl ot c (n, w))) = calls w @ tr \<and>
        replay cl (cstate w) tr = Some (cstate (snd (delete_batch cl ot c (n, w)))) \<and>
        chunk_calls ot [c] tr \<and>
        fst (delete_batch cl ot c (n, w)) = n + sum_list (map confirmed tr)"
proof -
  have body: "map (\<lambda>r. RecordRef (rid r)) c = c"
    by (simp add: map_idI)
  obtain out s' where cl: "cl (archive_request ot c) (cstate w) = (out, s')"
    by (cases "cl (archive_request ot c) (cstate w)")
  define w1 where "w1 = \<lparr>cstate = s', calls = calls w @ [(archive_request ot c, out)]\<rparr>"
  show ?thesis
  proof (cases out)
    case (Inr resp)
    then have "delete_batch cl ot c (n, w) = (n + length c, w1)"
      using cl by (simp add: delete_batch_def body call_def archive_request_def w1_def)
    then have "calls (snd (delete_batch cl ot c (n, w))) = calls w @ [(archive_request ot c, out)]"
      and "replay cl (cstate w) [(archive_request ot c, out)] =
             Some (cstate (snd (delete_batch cl ot c (n, w))))"
      and "chunk_calls ot [c] [(archive_request ot c, out)]"
      and "fst (delete_batch cl ot c (n, w)) = n + sum_list (map confirmed [(archive_request ot c, out)])"
      using Inr cl by (simp_all add: w1_def archive_request_def)
    then show ?thesis by blast
  next
    case (Inl e)
    then have eq: "delete_batch cl ot c (n, w) = delete_individually cl ot c (n, w1)"
      using cl by (simp add: delete_batch_def body call_def archive_request_def w1_def)
    from delete_individually_calls [of cl ot c n w1] obtain tr where
      tr: "calls (snd (delete_individually cl ot c (n, w1))) = calls w1 @ tr"
          "replay cl (cstate w1) tr = Some (cstate (snd (delete_individually cl ot c (n, w1))))"
          "map fst tr = map (delete_request ot) c"
          "fst (delete_individually cl ot c (n, w1)) = n + sum_list (map confirmed tr)"
      by blast
    from tr(3) have len: "length tr = length c"
      by (metis length_map)
    have "calls (snd (delete_batch cl ot c (n, w))) = calls w @ (archive_request ot c, out) # tr"
      using tr(1) by (simp add: eq w1_def)
    moreover have "replay cl (cstate w) ((archive_request ot c, out) # tr) =
        Some (cstate (snd (delete_batch cl ot c (n, w))))"
      using tr(2) cl by (simp add: eq w1_def)
    moreover have "chunk_calls ot [c] ((archive_request ot c, out) # tr)"
      using tr(3) len Inl by simp
    moreover have "fst (delete_batch cl ot c (n, w)) =
        n + sum_list (map confirmed ((archive_request ot c, out) # tr))"
      using tr(4) Inl by (simp add: eq archive_request_def)
    ultimately show ?thesis by blast
  qed
qed

lemma chunk_calls_Cons:
  assumes "chunk_calls ot [c] t1" and "chunk_calls ot cs t2"
  shows "chunk_calls ot (c # cs) (t1 @ t2)"
proof (cases t1)
  case Nil
  with assms(1) show ?thesis by simp
next
  case (Cons p rest)
  obtain req out where p: "p = (req, out)" by (cases p)
  show ?thesis
  proof (cases out)
    case (Inr resp)
    with assms Cons p show ?thesis by simp
  next
    case (Inl e)
    with assms(1) Cons p have req: "req = archive_request ot c"
      and d: "length rest \<le> length c"
      by simp_all
    from d have t: "take (length c) rest = rest" by simp
    from assms(1) Cons p Inl have "map fst (take (length c) rest) = map (delete_request ot) c"
      by (simp del: take_all)
    with t have m': "map fst rest = map (delete_request ot) c" by simp
    then have len: "length rest = length c" by (metis length_map)
    with assms(2) Cons p Inl req m' show ?thesis by simp
  qed
qed

lemma delete_loop_calls:
  "\<exists>tr. calls (snd (fold (\<lambda>i. delete_batch cl ot (take 100 (drop i rs)))
                             (py_range (length rs) 100) (n, w))) = calls w @ tr \<and>
        replay cl (cstate w) tr =
          Some (cstate (snd (fold (\<lambda>i. delete_batch cl ot (take 100 (drop i rs)))
                             (py_range (length rs) 100) (n, w)))) \<and>
        chunk_calls ot (chunks_of 100 rs) tr \<and>
        fst (fold (\<lambda>i. delete_batch cl ot (take 100 (drop i rs)))
                  (py_range (length rs) 100) (n, w)) = n + sum_list (map confirmed tr)"
proof (induction "length rs" arbitrary: rs n w rule: less_induct)
  case less
  show ?case
  proof (cases "rs = []")
    case True
    then show ?thesis
      by (simp add: py_range_def chunks_of.simps)
  next
    case False
    obtain n1 w1 where b: "delete_batch cl ot (take 100 rs) (n, w) = (n1, w1)"
      by (cases "delete_batch cl ot (take 100 rs) (n, w)")
    from delete_batch_calls [of cl ot "take 100 rs" n w] b obtain t1 where
      t1: "calls w1 = calls w @ t1" "replay cl (cstate w) t1 = Some (cstate w1)"
          "chunk_calls ot [take 100 rs] t1"
          "n1 = n + sum_list (map confirmed t1)"
      by auto
    let ?rest = "fold (\<lambda>i. delete_batch cl ot (take 100 (drop i (drop 100 rs))))
                        (py_range (length (drop 100 rs)) 100) (n1, w1)"
    from False have "length (drop 100 rs) < length rs" by simp
    from less [OF this, of n1 w1] obtain t2 where
      t2: "calls (snd ?rest) = calls w1 @ t2"
          "replay cl (cstate w1) t2 = Some (cstate (snd ?rest))"
          "chunk_calls ot (chunks_of 100 (drop 100 rs)) t2"
          "fst ?rest = n1 + sum_list (map confirmed t2)"
      by blast
    have ch: "chunks_of 100 rs = take 100 rs # chunks_of 100 (drop 100 rs)"
      using False by (subst chunks_of.simps) simp
    have "chunk_calls ot (chunks_of 100 rs) (t1 @ t2)"
      unfolding ch using t1(3) t2(3) by (rule chunk_calls_Cons)
    moreover have "calls (snd (fold (\<lambda>i. delete_batch cl ot (take 100 (drop i rs)))
                             (py_range (length rs) 100) (n, w))) = calls w @ t1 @ t2"
      unfolding delete_loop_step [OF False] b using t1(1) t2(1) by simp
    moreover have "replay cl (cstate w) (t1 @ t2) =
          Some (cstate (snd (fold (\<lambda>i. delete_batch cl ot (take 100 (drop i rs)))
                             (py_range (length rs) 100) (n, w))))"
      unfolding delete_loop_step [OF False] b replay_append [OF t1(2)] by (rule t2(2))
    moreover have "fst (fold (\<lambda>i. delete_batch cl ot (take 100 (drop i rs)))
                  (py_range (length rs) 100) (n, w)) = n + sum_list (map confirmed (t1 @ t2))"
      unfolding delete_loop_step [OF False] b using t1(4) t2(4) by simp
    ultimately show ?thesis by blast
  qed
qed

lemma delete_individually_script:
  "length outs = length c \<Longrightarrow>
   delete_individually script_client ot c (n, \<lparr>cstate = outs @ rest, calls = l\<rparr>) =
     (n + length (filter (\<lambda>out. \<not> isl out) outs),
      \<lparr>cstate = rest, calls = l @ zip (map (delete_request ot) c) outs\<rparr>)"
proof (induction c arbitrary: outs n l)
  case Nil
  then show ?case by simp
next
  case (Cons r c)
  then obtain out outs' where o: "outs = out # outs'" and len: "length outs' = length c"
    by (cases outs) auto
  show ?case
    unfolding o using Cons.IH [OF len]
    by (cases out) (simp_all add: call_script delete_request_def)
qed

lemma delete_records_script_250:
  assumes "length rs = 250" and "length outs = 100"
    and "length (filter (\<lambda>out. \<not> isl out) outs) = 80"
  shows "delete_records script_client ot rs
           \<lparr>cstate = Inr r1 # Inl e # outs @ [Inr r3], calls = []\<rparr> =
         (230, \<lparr>cstate = [],
                calls = (archive_request ot (take 100 rs), Inr r1) #
                        (archive_request ot (take 100 (drop 100 rs)), Inl e) #
                        zip (map (delete_request ot) (take 100 (drop 100 rs))) outs @
                        [(archive_request ot (drop 200 rs), Inr r3)]\<rparr>)"
proof -
  have body: "\<And>c. map (\<lambda>r. RecordRef (rid r)) c = c"
    by (simp add: map_idI)
  have ne: "rs \<noteq> []" "drop 100 rs \<noteq> []" "drop 100 (drop 100 rs) \<noteq> []"
    using assms(1) by auto
  have e: "drop 100 (drop 100 (drop 100 rs)) = []"
    using assms(1) by simp
  have l2: "length outs = length (take 100 (drop 100 rs))"
    using assms(1,2) by simp
  have c3: "take 100 (drop 200 rs) = drop 200 rs"
    using assms(1) by simp
  show ?thesis
    unfolding delete_records_def delete_loop_step [OF ne(1)] delete_loop_step [OF ne(2)]
      delete_loop_step [OF ne(3)] e
    using assms
    by (simp add: py_range_def delete_batch_def body call_script
        delete_individually_script [OF l2] archive_request_def c3)
qed

lemma concat_chunks_of: "0 < n \<Longrightarrow> concat (chunks_of n xs) = xs"
proof (induction n xs rule: chunks_of.induct)
  case (1 n xs)
  then show ?case by (subst chunks_of.simps) simp
qed

lemma length_chunks_of:
  "c \<in> set (chunks_of n xs) \<Longrightarrow> 0 < length c \<and> length c \<le> n"
proof (induction n xs rule: chunks_of.induct)
  case (1 n xs)
  from "1.prems" have ne: "\<not> (n = 0 \<or> xs = [])"
    by (subst (asm) chunks_of.simps) (simp split: if_splits)
  with "1.prems" have "c = take n xs \<or> c \<in> set (chunks_of n (drop n xs))"
    by (subst (asm) chunks_of.simps) simp
  then show ?case
  proof
    assume "c = take n xs"
    with ne show ?thesis by (cases xs) auto
  next
    assume "c \<in> set (chunks_of n (drop n xs))"
    with "1.IH" ne show ?thesis by blast
  qed
qed

text \<open>
  A trace that meets \<open>chunk_calls\<close> and replays against the client is the only one: the
  requests follow from the outcomes before them and the outcomes are the client's answers.
\<close>

lemma replay_split:
  "replay cl s (t1 @ t2) = Some s2 \<Longrightarrow>
   \<exists>s1. replay cl s t1 = Some s1 \<and> replay cl s1 t2 = Some s2"
proof (induction t1 arbitrary: s)
  case Nil
  then show ?case by simp
next
  case (Cons p t1)
  obtain req out where p: "p = (req, out)" by (cases p)
  obtain out' s' where c: "cl req s = (out', s')" by (cases "cl req s")
  from Cons.prems p c have o: "out' = out" and r: "replay cl s' (t1 @ t2) = Some s2"
    by (simp_all split: if_splits)
  from Cons.IH [OF r] p c o show ?case by simp
qed

lemma replay_same_requests:
  "map fst t = map fst t' \<Longrightarrow> replay cl s t = Some a \<Longrightarrow> replay cl s t' = Some b \<Longrightarrow>
   t = t' \<and> a = b"
proof (induction t arbitrary: t' s)
  case Nil
  then show ?case by simp
next
  case (Cons p t)
  from Cons.prems(1) obtain p' u where t': "t' = p' # u" and f: "fst p = fst p'"
    and m: "map fst t = map fst u"
    by (cases t') auto
  obtain req out where p: "p = (req, out)" by (cases p)
  with f obtain out2 where p': "p' = (req, out2)" by (cases p') simp
  obtain out' s' where c: "cl req s = (out', s')" by (cases "cl req s")
  from Cons.prems(2) p c have o: "out' = out" and r: "replay cl s' t = Some a"
    by (simp_all split: if_splits)
  from Cons.prems(3) t' p' c have o2: "out' = out2" and r2: "replay cl s' u = Some b"
    by (simp_all split: if_splits)
  from Cons.IH [OF m r r2] o o2 p p' t' show ?case by simp
qed

lemma chunk_calls_replay_unique:
  "chunk_calls ot cs tr \<Longrightarrow> chunk_calls ot cs tr' \<Longrightarrow>
   replay cl s tr = Some a \<Longrightarrow> replay cl s tr' = Some b \<Longrightarrow> tr = tr'"
proof (induction cs arbitrary: tr tr' s)
  case Nil
  then show ?case by simp
next
  case (Cons c cs)
  from Cons.prems(1) obtain out rest where tr: "tr = (archive_request ot c, out) # rest"
    by (cases tr) (auto split: prod.splits)
  from Cons.prems(2) obtain out2 rest' where tr': "tr' = (archive_request ot c, out2) # rest'"
    by (cases tr') (auto split: prod.splits)
  obtain out' s' where c: "cl (archive_request ot c) s = (out', s')"
    by (cases "cl (archive_request ot c) s")
  from Cons.prems(3) tr c have o: "out' = out" and r: "replay cl s' rest = Some a"
    by (simp_all split: if_splits)
  from Cons.prems(4) tr' c have o2: "out' = out2" and r2: "replay cl s' rest' = Some b"
    by (simp_all split: if_splits)
  show ?case
  proof (cases out)
    case (Inr resp)
    with Cons.prems(1,2) tr tr' o o2 have "chunk_calls ot cs rest" "chunk_calls ot cs rest'"
      by simp_all
    from Cons.IH [OF this r r2] tr tr' o o2 show ?thesis by simp
  next
    case (Inl e)
    let ?k = "length c"
    from Cons.prems(1,2) tr tr' o o2 Inl have
      h: "map fst (take ?k rest) = map (delete_request ot) c" "chunk_calls ot cs (drop ?k rest)"
      and h': "map fst (take ?k rest') = map (delete_request ot) c"
        "chunk_calls ot cs (drop ?k rest')"
      by simp_all
    from r have "replay cl s' (take ?k rest @ drop ?k rest) = Some a" by simp
    from replay_split [OF this] obtain s1 where
      a1: "replay cl s' (take ?k rest) = Some s1" and a2: "replay cl s1 (drop ?k rest) = Some a"
      by blast
    from r2 have "replay cl s' (take ?k rest' @ drop ?k rest') = Some b" by simp
    from replay_split [OF this] obtain s2 where
      b1: "replay cl s' (take ?k rest') = Some s2" and b2: "replay cl s2 (drop ?k rest') = Some b"
      by blast
    from h(1) h'(1) have "map fst (take ?k rest) = map fst (take ?k rest')" by simp
    from replay_same_requests [OF this a1 b1] have
      e1: "take ?k rest = take ?k rest'" and e2: "s1 = s2"
      by simp_all
    from Cons.IH [OF h(2) h'(2) a2] b2 e2 have e3: "drop ?k rest = drop ?k rest'" by simp
    have "rest = take ?k rest @ drop ?k rest" by simp
    also have "\<dots> = take ?k rest' @ drop ?k rest'" by (simp only: e1 e3)
    also have "\<dots> = rest'" by simp
    finally show ?thesis using tr tr' o o2 by simp
  qed
qed

text \<open>
  C3. For every client, every state of it and every list of records, the calls
  \<^verbatim>\<open>_delete_records\<close> makes are those of \<open>chunk_calls\<close> for the partition of the list in
  chunks of 100: every chunk gets its bulk archive, a failed one is followed by one
  individual delete per record of that chunk, and no failure of either kind stops the
  chunks or records after it. The outcomes in the trace are the answers of the client
  itself, each to its request in the state the earlier calls left (\<open>replay\<close>), and the
  client ends in the state after the last of them. The count returned is the sum of
  \<open>confirmed\<close> over these calls: the full chunk for a bulk archive that succeeded, one for
  each individual delete that succeeded, nothing for a failure. In particular, for any 250
  records, when the store accepts the first bulk archive, refuses the second, answers the
  100 individual deletes with 80 successes in any positions, and accepts the third bulk
  archive, the count is 230.
\<close>

theorem delete_records_accounting:
  "(\<exists>tr. calls (snd (delete_records cl ot rs w)) = calls w @ tr \<and>
         replay cl (cstate w) tr = Some (cstate (snd (delete_records cl ot rs w))) \<and>
         chunk_calls ot (chunks_of 100 rs) tr \<and>
         fst (delete_records cl ot rs w) = sum_list (map confirmed tr)) \<and>
   (length rs' = 250 \<and> length outs = 100 \<and>
    length (filter (\<lambda>out. \<not> isl out) outs) = 80 \<longrightarrow>
      fst (delete_records script_client ot' rs'
             \<lparr>cstate = Inr r1 # Inl e # outs @ [Inr r3], calls = []\<rparr>) = 230)"
proof
  show "\<exists>tr. calls (snd (delete_records cl ot rs w)) = calls w @ tr \<and>
         replay cl (cstate w) tr = Some (cstate (snd (delete_records cl ot rs w))) \<and>
         chunk_calls ot (chunks_of 100 rs) tr \<and>
         fst (delete_records cl ot rs w) = sum_list (map confirmed tr)"
    using delete_loop_calls [of cl ot rs 0 w] by (simp add: delete_records_def)
next
  show "length rs' = 250 \<and> length outs = 100 \<and>
    length (filter (\<lambda>out. \<not> isl out) outs) = 80 \<longrightarrow>
      fst (delete_records script_client ot' rs'
             \<lparr>cstate = Inr r1 # Inl e # outs @ [Inr r3], calls = []\<rparr>) = 230"
    by (simp add: delete_records_script_250)
qed

theorem delete_records_accounting_witness:
  "fst (delete_records script_client ''contacts'' (map (\<lambda>i. RecordRef (py_str (int i))) [1..<251])
          \<lparr>cstate = Inr \<lparr>total = 0, results = [], paging_after = None\<rparr> #
                    Inl (ServerError 500) #
                    (replicate 80 (Inr \<lparr>total = 0, results = [], paging_after = None\<rparr>) @
                     replicate 20 (Inl (ClientError 404))) @
                    [Inr \<lparr>total = 0, results = [], paging_after = None\<rparr>],
           calls = []\<rparr>) = 230"
  using delete_records_accounting
    [where rs' = "map (\<lambda>i. RecordRef (py_str (int i))) [1..<251]"
       and outs = "replicate 80 (Inr \<lparr>total = 0, results = [], paging_after = None\<rparr>) @
                     replicate 20 (Inl (ClientError 404))"
       and ot' = "''contacts''" and e = "ServerError 500"
       and cl = script_client and ot = "''contacts''" and rs = "[]"
       and w = "\<lparr>cstate = [], calls = []\<rparr>"
       and ?r1.0 = "\<lparr>total = 0, results = [], paging_after = None\<rparr>"
       and ?r3.0 = "\<lparr>total = 0, results = [], paging_after = None\<rparr>"]
  by simp

lemma date_criteria_naive_records:
  assumes "(created_after = Some ts \<or> modified_after = Some ts) \<and> tzinfo ts = None"
  shows "get_records_by_date_criteria py_int utc_millis cl object_type created_after modified_after w =
           Some (Inl ValueError, w)"
proof (cases "\<exists>c. created_after = Some c \<and> tzinfo c = None")
  case True
  then show ?thesis
    by (auto simp add: get_records_by_date_criteria_def build_date_filter_def)
next
  case False
  with assms have m: "modified_after = Some ts" "tzinfo ts = None" by auto
  from False show ?thesis
    by (cases created_after)
      (simp_all add: get_records_by_date_criteria_def build_date_filter_def m)
qed

text \<open>
  C9, as the code has it. When \<^verbatim>\<open>created_after\<close> or \<^verbatim>\<open>modified_after\<close> is a timestamp
  whose \<^verbatim>\<open>tzinfo\<close> is \<^verbatim>\<open>None\<close>, \<^verbatim>\<open>delete_by_date_criteria\<close> makes no call in any case:
  the world it returns is the one it started in, and the timestamp is never converted. It
  raises \<^verbatim>\<open>ValueError\<close> when there is at least one object type to process (\<open>None\<close> stands
  for all of them), because the timestamp is checked when the filter for the first object
  type is built; with an empty list of object types no filter is built and the empty
  outcome map is returned.
\<close>

theorem naive_timestamp_rejected:
  assumes "(created_after = Some ts \<or> modified_after = Some ts) \<and> tzinfo ts = None"
  shows "delete_by_date_criteria py_int utc_millis cl created_after modified_after object_types w =
           (if (case object_types of
                  None \<Rightarrow> get_all_object_types @ get_custom_object_types
                | Some ots \<Rightarrow> ots) = []
            then Some (Inr Map.empty, w)
            else Some (Inl ValueError, w))"
proof (cases "case object_types of
                  None \<Rightarrow> get_all_object_types @ get_custom_object_types
                | Some ots \<Rightarrow> ots")
  case Nil
  then show ?thesis by (simp add: delete_by_date_criteria_def)
next
  case (Cons ot ots)
  then show ?thesis
    by (simp add: delete_by_date_criteria_def date_criteria_naive_records [OF assms])
qed

theorem naive_timestamp_rejected_witness:
  "delete_by_date_criteria (\<lambda>s. None) (\<lambda>t. wall_clock t) script_client
     (Some \<lparr>wall_clock = 1709251200000, tzinfo = None\<rparr>) None None
     \<lparr>cstate = [], calls = []\<rparr> =
   Some (Inl ValueError, \<lparr>cstate = [], calls = []\<rparr>)"
  using naive_timestamp_rejected
    [where created_after = "Some \<lparr>wall_clock = 1709251200000, tzinfo = None\<rparr>"
       and ts = "\<lparr>wall_clock = 1709251200000, tzinfo = None\<rparr>"
       and modified_after = None and object_types = None
       and py_int = "\<lambda>s. None" and utc_millis = "\<lambda>t. wall_clock t"
       and cl = script_client and w = "\<lparr>cstate = [], calls = []\<rparr>"]
  by (simp add: get_all_object_types_def)

text \<open>
  The claim as the specification words it fails in two ways. For an empty list of object
  types the call with a timestamp without \<^verbatim>\<open>tzinfo\<close> returns the empty map and raises
  nothing. And a timestamp whose \<^verbatim>\<open>tzinfo\<close> is set but gives no offset carries no explicit
  offset either, yet it passes the test \<^verbatim>\<open>timestamp.tzinfo is None\<close>: it is converted as
  the library converts a naive one, here on a system one hour ahead of UTC, and the search
  request is sent; the store below has no answer left and the request fails in transport.
\<close>

theorem timestamp_without_offset_counterexample:
  "delete_by_date_criteria (\<lambda>s. None) (\<lambda>t. wall_clock t) script_client
     (Some \<lparr>wall_clock = 1709251200000, tzinfo = None\<rparr>) None (Some [])
     \<lparr>cstate = [], calls = []\<rparr> =
   Some (Inr Map.empty, \<lparr>cstate = [], calls = []\<rparr>) \<and>
   delete_by_date_criteria (\<lambda>s. None)
     (\<lambda>t. wall_clock t - (case tzinfo t of
                            None \<Rightarrow> 3600000
                          | Some tz \<Rightarrow> (case utcoffset tz of None \<Rightarrow> 3600000 | Some off \<Rightarrow> off)))
     script_client
     (Some \<lparr>wall_clock = 1709251200000, tzinfo = Some (Tzinfo None)\<rparr>) None (Some [''contacts''])
     \<lparr>cstate = [], calls = []\<rparr> =
   Some (Inl (HubspotError TransportError),
         \<lparr>cstate = [],
          calls = [(Post (search_endpoint ''contacts'')
                      (SearchBody (create_search_payload
                         [\<lparr>propertyName = ''createdate'', operator = ''GTE'',
                            filter_value = Some ''1709247600000''\<rparr>,
                          \<lparr>propertyName = ''hs_object_id'', operator = ''GT'',
                            filter_value = Some ''0''\<rparr>] 200)),
                    Inl TransportError)]\<rparr>)"
proof
  show "delete_by_date_criteria (\<lambda>s. None) (\<lambda>t. wall_clock t) script_client
     (Some \<lparr>wall_clock = 1709251200000, tzinfo = None\<rparr>) None (Some [])
     \<lparr>cstate = [], calls = []\<rparr> =
   Some (Inr Map.empty, \<lparr>cstate = [], calls = []\<rparr>)"
    by (simp add: delete_by_date_criteria_def)
next
  show "delete_by_date_criteria (\<lambda>s. None)
     (\<lambda>t. wall_clock t - (case tzinfo t of
                            None \<Rightarrow> 3600000
                          | Some tz \<Rightarrow> (case utcoffset tz of None \<Rightarrow> 3600000 | Some off \<Rightarrow> off)))
     script_client
     (Some \<lparr>wall_clock = 1709251200000, tzinfo = Some (Tzinfo None)\<rparr>) None (Some [''contacts''])
     \<lparr>cstate = [], calls = []\<rparr> =
   Some (Inl (HubspotError TransportError),
         \<lparr>cstate = [],
          calls = [(Post (search_endpoint ''contacts'')
                      (SearchBody (create_search_payload
                         [\<lparr>propertyName = ''createdate'', operator = ''GTE'',
                            filter_value = Some ''1709247600000''\<rparr>,
                          \<lparr>propertyName = ''hs_object_id'', operator = ''GT'',
                            filter_value = Some ''0''\<rparr>] 200)),
                    Inl TransportError)]\<rparr>)"
  proof -
    have v: "py_str 1709247600000 = ''1709247600000''"
      by (simp add: py_str_def str_nat.simps digit_char_def)
    have z: "py_str 0 = ''0''"
      by (simp add: py_str_def str_nat.simps digit_char_def)
    have sl: "search_loop (\<lambda>s. None) script_client ''contacts''
        (FilterList [\<lparr>propertyName = ''createdate'', operator = ''GTE'',
                       filter_value = Some ''1709247600000''\<rparr>]) [] 0
        \<lparr>cstate = [], calls = []\<rparr> =
      Some (Inl (HubspotError TransportError),
         \<lparr>cstate = [],
          calls = [(Post (search_endpoint ''contacts'')
                      (SearchBody (create_search_payload
                         [\<lparr>propertyName = ''createdate'', operator = ''GTE'',
                            filter_value = Some ''1709247600000''\<rparr>,
                          \<lparr>propertyName = ''hs_object_id'', operator = ''GT'',
                            filter_value = Some ''0''\<rparr>] 200)),
                    Inl TransportError)]\<rparr>)"
      by (subst search_loop.simps)
        (simp add: add_id_threshold_filter_def call_def script_client_def z)
    show ?thesis
      by (simp add: delete_by_date_criteria_def get_records_by_date_criteria_def
          build_date_filter_def search_records_def v sl)
  qed
qed

text \<open>
  C6. \<^verbatim>\<open>delete_by_query\<close> is declared with \<^verbatim>\<open>query: str\<close> and the command line hands it
  a string. Whatever the string, the object type, the client and its state, the call raises
  \<^verbatim>\<open>AttributeError\<close> in \<^verbatim>\<open>_add_id_threshold_filter\<close> before any request is made: no
  search is run and no count is returned.
\<close>

theorem delete_by_query_str_raises:
  "delete_by_query py_int cl object_type (QueryStr query) w = Some (Inl AttributeError, w)"
  by (simp add: delete_by_query_def search_records_def search_loop.simps add_id_threshold_filter_def)





text \<open>
  Only the helper \<^verbatim>\<open>_read_csv_records\<close>, which nothing calls, sorts rows by their own
  object type.
\<close>

lemma read_csv_records_groups_by_row_category:
  "read_csv_records
      \<lparr>fieldnames = Some [''hubspot_id'', ''object_type''],
       csv_rows = [[''hubspot_id'' \<mapsto> ''1'', ''object_type'' \<mapsto> ''deals'']]\<rparr>
      ''hubspot_id'' = Inr [''deals'' \<mapsto> [RecordRef ''1'']]"
  by (simp add: read_csv_records_def)

section \<open>Properties of the Full List Enumerator\<close>

lemma list_walk_error:
  assumes "fst (call cl (Get (''/crm/v3/objects/'' @ ot) 100 (if truthy a then a else None)) w) = Inl e"
  shows "list_walk cl ot a acc w =
           Some (acc, snd (call cl (Get (''/crm/v3/objects/'' @ ot) 100 (if truthy a then a else None)) w))"
proof -
  obtain r w' where c: "call cl (Get (''/crm/v3/objects/'' @ ot) 100 (if truthy a then a else None)) w = (r, w')"
    by (cases "call cl (Get (''/crm/v3/objects/'' @ ot) 100 (if truthy a then a else None)) w")
  with assms have "r = Inl e" by simp
  with c show ?thesis
    by (subst list_walk.simps) simp
qed

lemma list_walk_script:
  assumes "\<forall>p\<in>set pages. truthy (paging_after p)"
  shows "list_walk script_client ot a acc \<lparr>cstate = map Inr pages @ Inl e # rest, calls = l\<rparr> =
           Some (acc @ concat (map (\<lambda>p. map (\<lambda>r. RecordRef (obj_id r)) (results p)) pages),
                 \<lparr>cstate = rest,
                  calls = l @ zip (map (Get (''/crm/v3/objects/'' @ ot) 100)
                                       ((if truthy a then a else None) # map paging_after pages))
                                  (map Inr pages @ [Inl e])\<rparr>)"
  using assms
proof (induction pages arbitrary: a acc l)
  case Nil
  show ?case
    by (subst list_walk.simps) (simp add: call_script)
next
  case (Cons p pages)
  from Cons.prems have t: "truthy (paging_after p)" and rest: "\<forall>q\<in>set pages. truthy (paging_after q)"
    by simp_all
  show ?case
    by (subst list_walk.simps) (simp add: call_script t Let_def Cons.IH [OF rest])
qed

text \<open>
  C7. At any turn of the walk of \<^verbatim>\<open>_get_all_records_by_type\<close>, with any client, cursor
  and records collected so far, a listing call that raises a classified remote error ends
  the walk: it returns, without raising, exactly the records collected before that call.
  Over a whole walk: for every sequence of listing pages that each carry a cursor,
  followed by an error, the walk returns the references of the records of these pages, in
  order, and has made one call per page and the failed one.
\<close>

theorem list_walk_returns_collected_on_error:
  "(fst (call cl (Get (''/crm/v3/objects/'' @ ot) 100 (if truthy a then a else None)) w) = Inl e \<longrightarrow>
      list_walk cl ot a acc w =
        Some (acc, snd (call cl (Get (''/crm/v3/objects/'' @ ot) 100 (if truthy a then a else None)) w))) \<and>
   ((\<forall>p\<in>set pages. truthy (paging_after p)) \<longrightarrow>
      get_all_records_by_type script_client ot'
          \<lparr>cstate = map Inr pages @ Inl e' # rest, calls = l\<rparr> =
        Some (concat (map (\<lambda>p. map (\<lambda>r. RecordRef (obj_id r)) (results p)) pages),
              \<lparr>cstate = rest,
               calls = l @ zip (map (Get (''/crm/v3/objects/'' @ ot') 100)
                                    (None # map paging_after pages))
                               (map Inr pages @ [Inl e'])\<rparr>))"
proof (intro conjI impI)
  assume "fst (call cl (Get (''/crm/v3/objects/'' @ ot) 100 (if truthy a then a else None)) w) = Inl e"
  then show "list_walk cl ot a acc w =
        Some (acc, snd (call cl (Get (''/crm/v3/objects/'' @ ot) 100 (if truthy a then a else None)) w))"
    by (rule list_walk_error)
next
  assume "\<forall>p\<in>set pages. truthy (paging_after p)"
  from list_walk_script [OF this, of ot' None "[]" e' rest l]
  show "get_all_records_by_type script_client ot'
          \<lparr>cstate = map Inr pages @ Inl e' # rest, calls = l\<rparr> =
        Some (concat (map (\<lambda>p. map (\<lambda>r. RecordRef (obj_id r)) (results p)) pages),
              \<lparr>cstate = rest,
               calls = l @ zip (map (Get (''/crm/v3/objects/'' @ ot') 100)
                                    (None # map paging_after pages))
                               (map Inr pages @ [Inl e'])\<rparr>)"
    by (simp add: get_all_records_by_type_def truthy_def)
qed

theorem list_walk_returns_collected_on_error_witness:
  "get_all_records_by_type script_client ''contacts''
     \<lparr>cstate = [Inr \<lparr>total = 0, results = [HsObject ''11'' [], HsObject ''12'' []],
                      paging_after = Some ''12''\<rparr>,
                Inr \<lparr>total = 0, results = [HsObject ''13'' []], paging_after = Some ''13''\<rparr>,
                Inl (ServerError 502),
                Inr \<lparr>total = 0, results = [HsObject ''14'' []], paging_after = None\<rparr>],
      calls = []\<rparr> =
   Some ([RecordRef ''11'', RecordRef ''12'', RecordRef ''13''],
         \<lparr>cstate = [Inr \<lparr>total = 0, results = [HsObject ''14'' []], paging_after = None\<rparr>],
          calls = [(Get ''/crm/v3/objects/contacts'' 100 None,
                    Inr \<lparr>total = 0, results = [HsObject ''11'' [], HsObject ''12'' []],
                          paging_after = Some ''12''\<rparr>),
                   (Get ''/crm/v3/objects/contacts'' 100 (Some ''12''),
                    Inr \<lparr>total = 0, results = [HsObject ''13'' []], paging_after = Some ''13''\<rparr>),
                   (Get ''/crm/v3/objects/contacts'' 100 (Some ''13''), Inl (ServerError 502))]\<rparr>)"
  using list_walk_returns_collected_on_error
    [where pages = "[\<lparr>total = 0, results = [HsObject ''11'' [], HsObject ''12'' []],
                      paging_after = Some ''12''\<rparr>,
                     \<lparr>total = 0, results = [HsObject ''13'' []], paging_after = Some ''13''\<rparr>]"
       and e' = "ServerError 502"
       and rest = "[Inr \<lparr>total = 0, results = [HsObject ''14'' []], paging_after = None\<rparr>]"
       and l = "[]" and ot' = "''contacts''"
       and cl = script_client and ot = "''contacts''" and a = None and acc = "[]"
       and w = "\<lparr>cstate = [], calls = []\<rparr>" and e = TransportError]
  by (simp add: truthy_def)

section \<open>Properties of the Filtered Search Enumerator\<close>

lemma call_script_Nil:
  "call script_client req \<lparr>cstate = [], calls = l\<rparr> =
     (Inl TransportError, \<lparr>cstate = [], calls = l @ [(req, Inl TransportError)]\<rparr>)"
  by (simp add: call_def script_client_def)

lemma collect_page_length:
  "collect_page py_int rs batch lid = Inr (batch', lid') \<Longrightarrow>
   length batch' = length batch + length rs"
  by (induction rs arbitrary: batch lid) (auto split: option.splits)

lemma drain_calls_payload:
  "drain_calls ot (payload\<lparr>after := x\<rparr>) a n tr = drain_calls ot payload a n tr"
proof (induction tr arbitrary: a n)
  case Nil
  show ?case by simp
next
  case (Cons p tr)
  obtain req out where p: "p = (req, out)" by (cases p)
  show ?case
    unfolding p by (cases out) (simp_all add: Cons.IH)
qed

lemma paginate_script:
  "\<exists>r s' tr.
      paginate py_int script_client ot payload a batch lid \<lparr>cstate = s, calls = l\<rparr> =
        Some (r, \<lparr>cstate = s', calls = l @ tr\<rparr>) \<and>
      length s' \<le> length s \<and>
      (\<forall>req e. (req, Inl e) \<in> set tr \<longrightarrow> r = Inl (HubspotError e)) \<and>
      (length batch < 10000 \<longrightarrow> drain_calls ot payload a (length batch) tr)"
proof (induction s arbitrary: payload a batch lid l)
  case Nil
  show ?case
  proof (cases "truthy a")
    case False
    then have "paginate py_int script_client ot payload a batch lid \<lparr>cstate = [], calls = l\<rparr> =
        Some (Inr (batch, lid), \<lparr>cstate = [], calls = l @ []\<rparr>)"
      by (subst paginate.simps) simp
    then show ?thesis by fastforce
  next
    case True
    let ?req = "Post (search_endpoint ot) (SearchBody (payload\<lparr>after := a\<rparr>))"
    from True have "paginate py_int script_client ot payload a batch lid \<lparr>cstate = [], calls = l\<rparr> =
        Some (Inl (HubspotError TransportError),
              \<lparr>cstate = [], calls = l @ [(?req, Inl TransportError)]\<rparr>)"
      by (subst paginate.simps) (simp add: call_script_Nil)
    moreover have "\<forall>req e. (req, Inl e) \<in> set [(?req, Inl TransportError)] \<longrightarrow>
        Inl (HubspotError TransportError) = (Inl (HubspotError e) :: exn + (record_ref list \<times> int))"
      by simp
    moreover have "length batch < 10000 \<longrightarrow>
        drain_calls ot payload a (length batch) [(?req, Inl TransportError)]"
      using True by simp
    ultimately show ?thesis by blast
  qed
next
  case (Cons x s)
  let ?req = "Post (search_endpoint ot) (SearchBody (payload\<lparr>after := a\<rparr>))"
  show ?case
  proof (cases "truthy a")
    case False
    then have "paginate py_int script_client ot payload a batch lid \<lparr>cstate = x # s, calls = l\<rparr> =
        Some (Inr (batch, lid), \<lparr>cstate = x # s, calls = l @ []\<rparr>)"
      by (subst paginate.simps) simp
    then show ?thesis by fastforce
  next
    case True
    show ?thesis
    proof (cases x)
      case (Inl e)
      with True have "paginate py_int script_client ot payload a batch lid \<lparr>cstate = x # s, calls = l\<rparr> =
          Some (Inl (HubspotError e), \<lparr>cstate = s, calls = l @ [(?req, Inl e)]\<rparr>)"
        by (subst paginate.simps) (simp add: call_script)
      moreover have "\<forall>req e'. (req, Inl e') \<in> set [(?req, Inl e)] \<longrightarrow>
          Inl (HubspotError e) = (Inl (HubspotError e') :: exn + (record_ref list \<times> int))"
        by simp
      moreover have "length batch < 10000 \<longrightarrow> drain_calls ot payload a (length batch) [(?req, Inl e)]"
        using True by simp
      moreover have "length s \<le> length (x # s)" by simp
      ultimately show ?thesis by blast
    next
      case (Inr resp)
      show ?thesis
      proof (cases "collect_page py_int (results resp) batch lid")
        case (Inl err)
        with True Inr have "paginate py_int script_client ot payload a batch lid
              \<lparr>cstate = x # s, calls = l\<rparr> =
            Some (Inl err, \<lparr>cstate = s, calls = l @ [(?req, Inr resp)]\<rparr>)"
          by (subst paginate.simps) (simp add: call_script)
        moreover have "\<forall>req e'. (req, Inl e') \<in> set [(?req, Inr resp)] \<longrightarrow>
            Inl err = (Inl (HubspotError e') :: exn + (record_ref list \<times> int))"
          by simp
        moreover have "length batch < 10000 \<longrightarrow>
            drain_calls ot payload a (length batch) [(?req, Inr resp)]"
          using True by simp
        moreover have "length s \<le> length (x # s)" by simp
        ultimately show ?thesis by blast
      next
        case (Inr bl)
        obtain batch' lid' where bl: "bl = (batch', lid')" by (cases bl)
        from Inr bl have len: "length batch' = length batch + length (results resp)"
          by (simp add: collect_page_length)
        show ?thesis
        proof (cases "10000 \<le> length batch'")
          case big: True
          with True \<open>x = Inr resp\<close> Inr bl
          have "paginate py_int script_client ot payload a batch lid
                \<lparr>cstate = x # s, calls = l\<rparr> =
              Some (Inr (batch', lid'), \<lparr>cstate = s, calls = l @ [(?req, Inr resp)]\<rparr>)"
            by (subst paginate.simps) (simp add: call_script)
          moreover have "\<forall>req e'. (req, Inl e') \<in> set [(?req, Inr resp)] \<longrightarrow>
              Inr (batch', lid') = (Inl (HubspotError e') :: exn + (record_ref list \<times> int))"
            by simp
          moreover have "length batch < 10000 \<longrightarrow>
              drain_calls ot payload a (length batch) [(?req, Inr resp)]"
            using True by simp
          moreover have "length s \<le> length (x # s)" by simp
          ultimately show ?thesis by blast
        next
          case small: False
          from Cons.IH [of "payload\<lparr>after := a\<rparr>" "paging_after resp" batch' lid'
              "l @ [(?req, Inr resp)]"]
          obtain r s' tr where
            run: "paginate py_int script_client ot (payload\<lparr>after := a\<rparr>) (paging_after resp)
                    batch' lid' \<lparr>cstate = s, calls = l @ [(?req, Inr resp)]\<rparr> =
                  Some (r, \<lparr>cstate = s', calls = (l @ [(?req, Inr resp)]) @ tr\<rparr>)"
            and le: "length s' \<le> length s"
            and err: "\<forall>req e. (req, Inl e) \<in> set tr \<longrightarrow> r = Inl (HubspotError e)"
            and dr: "length batch' < 10000 \<longrightarrow>
                     drain_calls ot (payload\<lparr>after := a\<rparr>) (paging_after resp) (length batch') tr"
            by blast
          from True \<open>x = Inr resp\<close> Inr bl small run
          have "paginate py_int script_client ot payload a batch lid
                \<lparr>cstate = x # s, calls = l\<rparr> =
              Some (r, \<lparr>cstate = s', calls = l @ (?req, Inr resp) # tr\<rparr>)"
            by (subst paginate.simps) (simp add: call_script)
          moreover from err have "\<forall>req e. (req, Inl e) \<in> set ((?req, Inr resp) # tr) \<longrightarrow>
              r = Inl (HubspotError e)"
            by simp
          moreover have "length batch < 10000 \<longrightarrow>
              drain_calls ot payload a (length batch) ((?req, Inr resp) # tr)"
            using True small dr len by (simp add: drain_calls_payload)
          moreover from le have "length s' \<le> length (x # s)" by simp
          ultimately show ?thesis by blast
        qed
      qed
    qed
  qed
qed

lemma process_search_batch_script:
  "\<exists>r s' tr.
      process_search_batch py_int script_client ot resp payload \<lparr>cstate = s, calls = l\<rparr> =
        Some (r, \<lparr>cstate = s', calls = l @ tr\<rparr>) \<and>
      length s' \<le> length s \<and>
      (\<forall>req e. (req, Inl e) \<in> set tr \<longrightarrow> r = Inl (HubspotError e)) \<and>
      (length (results resp) < 10000 \<longrightarrow>
         drain_calls ot payload (paging_after resp) (length (results resp)) tr)"
proof (cases "collect_page py_int (results resp) [] 0")
  case (Inl err)
  then have "process_search_batch py_int script_client ot resp payload \<lparr>cstate = s, calls = l\<rparr> =
      Some (Inl err, \<lparr>cstate = s, calls = l @ []\<rparr>)"
    by (simp add: process_search_batch_def)
  then show ?thesis by fastforce
next
  case (Inr bl)
  obtain batch lid where bl: "bl = (batch, lid)" by (cases bl)
  from Inr bl have len: "length batch = length (results resp)"
    using collect_page_length [of py_int "results resp" "[]" 0 batch lid] by simp
  from Inr bl have "process_search_batch py_int script_client ot resp payload \<lparr>cstate = s, calls = l\<rparr> =
      paginate py_int script_client ot payload (paging_after resp) batch lid \<lparr>cstate = s, calls = l\<rparr>"
    by (simp add: process_search_batch_def)
  with paginate_script [of py_int ot payload "paging_after resp" batch lid s l] len
  show ?thesis by simp
qed

lemma search_loop_script:
  "\<exists>r s' tr.
      search_loop py_int script_client ot filters acc t \<lparr>cstate = s, calls = l\<rparr> =
        Some (r, \<lparr>cstate = s', calls = l @ tr\<rparr>) \<and>
      (\<forall>req e. (req, Inl e) \<in> set tr \<longrightarrow> r = Inl (HubspotError e))"
proof (induction "length s" arbitrary: s acc t l rule: less_induct)
  case less
  show ?case
  proof (cases "add_id_threshold_filter filters t")
    case (Inl err)
    then have "search_loop py_int script_client ot filters acc t \<lparr>cstate = s, calls = l\<rparr> =
        Some (Inl err, \<lparr>cstate = s, calls = l @ []\<rparr>)"
      by (subst search_loop.simps) simp
    then show ?thesis by fastforce
  next
    case (Inr cf)
    let ?pl = "create_search_payload cf 200"
    let ?req = "Post (search_endpoint ot) (SearchBody ?pl)"
    show ?thesis
    proof (cases s)
      case Nil
      with Inr have "search_loop py_int script_client ot filters acc t \<lparr>cstate = s, calls = l\<rparr> =
          Some (Inl (HubspotError TransportError),
                \<lparr>cstate = [], calls = l @ [(?req, Inl TransportError)]\<rparr>)"
        by (subst search_loop.simps) (simp add: call_script_Nil)
      moreover have "\<forall>req e. (req, Inl e) \<in> set [(?req, Inl TransportError)] \<longrightarrow>
          Inl (HubspotError TransportError) = (Inl (HubspotError e) :: exn + record_ref list)"
        by simp
      ultimately show ?thesis by blast
    next
      case (Cons x s1)
      show ?thesis
      proof (cases x)
        case (Inl e)
        with Inr Cons have "search_loop py_int script_client ot filters acc t \<lparr>cstate = s, calls = l\<rparr> =
            Some (Inl (HubspotError e), \<lparr>cstate = s1, calls = l @ [(?req, Inl e)]\<rparr>)"
          by (subst search_loop.simps) (simp add: call_script)
        moreover have "\<forall>req e'. (req, Inl e') \<in> set [(?req, Inl e)] \<longrightarrow>
            Inl (HubspotError e) = (Inl (HubspotError e') :: exn + record_ref list)"
          by simp
        ultimately show ?thesis by blast
      next
        case resp: (Inr resp)
        show ?thesis
        proof (cases "total resp = 0")
          case True
          with Inr Cons resp
          have "search_loop py_int script_client ot filters acc t \<lparr>cstate = s, calls = l\<rparr> =
              Some (Inr acc, \<lparr>cstate = s1, calls = l @ [(?req, Inr resp)]\<rparr>)"
            by (subst search_loop.simps) (simp add: call_script)
          moreover have "\<forall>req e'. (req, Inl e') \<in> set [(?req, Inr resp)] \<longrightarrow>
              Inr acc = (Inl (HubspotError e') :: exn + record_ref list)"
            by simp
          ultimately show ?thesis by blast
        next
          case nz: False
          from process_search_batch_script [of py_int ot resp ?pl s1 "l @ [(?req, Inr resp)]"]
          obtain r1 s2 tr1 where
            run: "process_search_batch py_int script_client ot resp ?pl
                    \<lparr>cstate = s1, calls = l @ [(?req, Inr resp)]\<rparr> =
                  Some (r1, \<lparr>cstate = s2, calls = (l @ [(?req, Inr resp)]) @ tr1\<rparr>)"
            and le: "length s2 \<le> length s1"
            and err: "\<forall>req e. (req, Inl e) \<in> set tr1 \<longrightarrow> r1 = Inl (HubspotError e)"
            by blast
          show ?thesis
          proof (cases r1)
            case (Inl err1)
            with Inr Cons resp nz run
            have "search_loop py_int script_client ot filters acc t \<lparr>cstate = s, calls = l\<rparr> =
                Some (Inl err1, \<lparr>cstate = s2, calls = l @ (?req, Inr resp) # tr1\<rparr>)"
              by (subst search_loop.simps) (simp add: call_script)
            moreover from err Inl
            have "\<forall>req e. (req, Inl e) \<in> set ((?req, Inr resp) # tr1) \<longrightarrow>
                Inl err1 = (Inl (HubspotError e) :: exn + record_ref list)"
              by auto
            ultimately show ?thesis by blast
          next
            case r1: (Inr bl)
            obtain batch lid where bl: "bl = (batch, lid)" by (cases bl)
            from err r1 have noerr: "\<forall>req e. (req, Inl e) \<notin> set tr1" by auto
            show ?thesis
            proof (cases "total resp < 10000")
              case True
              with Inr Cons resp nz run r1 bl
              have "search_loop py_int script_client ot filters acc t \<lparr>cstate = s, calls = l\<rparr> =
                  Some (Inr (acc @ batch), \<lparr>cstate = s2, calls = l @ (?req, Inr resp) # tr1\<rparr>)"
                by (subst search_loop.simps) (simp add: call_script)
              moreover from noerr
              have "\<forall>req e. (req, Inl e) \<in> set ((?req, Inr resp) # tr1) \<longrightarrow>
                  Inr (acc @ batch) = (Inl (HubspotError e) :: exn + record_ref list)"
                by auto
              ultimately show ?thesis by blast
            next
              case False
              from le Cons have "length s2 < length s" by simp
              from less [OF this, of "acc @ batch" lid "l @ (?req, Inr resp) # tr1"]
              obtain r s' tr2 where
                rec: "search_loop py_int script_client ot filters (acc @ batch) lid
                        \<lparr>cstate = s2, calls = l @ (?req, Inr resp) # tr1\<rparr> =
                      Some (r, \<lparr>cstate = s', calls = (l @ (?req, Inr resp) # tr1) @ tr2\<rparr>)"
                and err2: "\<forall>req e. (req, Inl e) \<in> set tr2 \<longrightarrow> r = Inl (HubspotError e)"
                by blast
              from Inr Cons resp nz run r1 bl False rec
              have "search_loop py_int script_client ot filters acc t \<lparr>cstate = s, calls = l\<rparr> =
                  Some (r, \<lparr>cstate = s', calls = l @ ((?req, Inr resp) # tr1 @ tr2)\<rparr>)"
                by (subst search_loop.simps) (simp add: call_script)
              moreover from noerr err2
              have "\<forall>req e. (req, Inl e) \<in> set ((?req, Inr resp) # tr1 @ tr2) \<longrightarrow>
                  r = Inl (HubspotError e)"
                by auto
              ultimately show ?thesis by blast
            qed
          qed
        qed
      qed
    qed
  qed
qed

lemma search_loop_call_error:
  assumes "add_id_threshold_filter filters t = Inr cf"
    and "fst (call cl (Post (search_endpoint ot) (SearchBody (create_search_payload cf 200))) w) = Inl e"
  shows "search_loop py_int cl ot filters acc t w =
           Some (Inl (HubspotError e),
                 snd (call cl (Post (search_endpoint ot) (SearchBody (create_search_payload cf 200))) w))"
proof -
  obtain r w' where c: "call cl (Post (search_endpoint ot) (SearchBody (create_search_payload cf 200))) w = (r, w')"
    by (cases "call cl (Post (search_endpoint ot) (SearchBody (create_search_payload cf 200))) w")
  with assms(2) have "r = Inl e" by simp
  with c assms(1) show ?thesis
    by (subst search_loop.simps) simp
qed

lemma paginate_call_error:
  assumes "truthy a"
    and "fst (call cl (Post (search_endpoint ot) (SearchBody (payload\<lparr>after := a\<rparr>))) w) = Inl e"
  shows "paginate py_int cl ot payload a batch lid w =
           Some (Inl (HubspotError e),
                 snd (call cl (Post (search_endpoint ot) (SearchBody (payload\<lparr>after := a\<rparr>))) w))"
proof -
  obtain r w' where c: "call cl (Post (search_endpoint ot) (SearchBody (payload\<lparr>after := a\<rparr>))) w = (r, w')"
    by (cases "call cl (Post (search_endpoint ot) (SearchBody (payload\<lparr>after := a\<rparr>))) w")
  with assms(2) have "r = Inl e" by simp
  with c assms(1) show ?thesis
    by (subst paginate.simps) simp
qed

text \<open>
  C8. In any leg and with any client, a classified remote error raised by the leg's first
  request ends \<^verbatim>\<open>_search_records\<close> with that error, and so does one raised by a
  pagination request inside \<^verbatim>\<open>_process_search_batch\<close>. Over a whole search: for every
  finite sequence of store responses, every object type and every filter argument, the
  search returns, and if any call of it was answered by a classified remote error, what it
  returns is that error, raised to the caller, and not a list of records.
\<close>

theorem search_error_aborts_and_propagates:
  "(add_id_threshold_filter filters t = Inr cf \<and>
    fst (call cl (Post (search_endpoint ot) (SearchBody (create_search_payload cf 200))) w) = Inl e \<longrightarrow>
      search_loop py_int cl ot filters acc t w =
        Some (Inl (HubspotError e),
              snd (call cl (Post (search_endpoint ot) (SearchBody (create_search_payload cf 200))) w))) \<and>
   (truthy a \<and>
    fst (call cl (Post (search_endpoint ot) (SearchBody (payload\<lparr>after := a\<rparr>))) w) = Inl e \<longrightarrow>
      paginate py_int cl ot payload a batch lid w =
        Some (Inl (HubspotError e),
              snd (call cl (Post (search_endpoint ot) (SearchBody (payload\<lparr>after := a\<rparr>))) w))) \<and>
   (\<exists>r w' tr.
      search_records py_int script_client ot filters \<lparr>cstate = s, calls = l\<rparr> = Some (r, w') \<and>
      calls w' = l @ tr \<and>
      (\<forall>req e'. (req, Inl e') \<in> set tr \<longrightarrow> r = Inl (HubspotError e')))"
proof (intro conjI impI)
  assume "add_id_threshold_filter filters t = Inr cf \<and>
    fst (call cl (Post (search_endpoint ot) (SearchBody (create_search_payload cf 200))) w) = Inl e"
  then show "search_loop py_int cl ot filters acc t w =
        Some (Inl (HubspotError e),
              snd (call cl (Post (search_endpoint ot) (SearchBody (create_search_payload cf 200))) w))"
    by (simp add: search_loop_call_error)
next
  assume "truthy a \<and>
    fst (call cl (Post (search_endpoint ot) (SearchBody (payload\<lparr>after := a\<rparr>))) w) = Inl e"
  then show "paginate py_int cl ot payload a batch lid w =
        Some (Inl (HubspotError e),
              snd (call cl (Post (search_endpoint ot) (SearchBody (payload\<lparr>after := a\<rparr>))) w))"
    by (simp add: paginate_call_error)
next
  from search_loop_script [of py_int ot filters "[]" 0 s l]
  obtain r s' tr where
    "search_loop py_int script_client ot filters [] 0 \<lparr>cstate = s, calls = l\<rparr> =
       Some (r, \<lparr>cstate = s', calls = l @ tr\<rparr>)"
    "\<forall>req e. (req, Inl e) \<in> set tr \<longrightarrow> r = Inl (HubspotError e)"
    by blast
  then have "search_records py_int script_client ot filters \<lparr>cstate = s, calls = l\<rparr> =
       Some (r, \<lparr>cstate = s', calls = l @ tr\<rparr>) \<and>
     calls \<lparr>cstate = s', calls = l @ tr\<rparr> = l @ tr \<and>
     (\<forall>req e'. (req, Inl e') \<in> set tr \<longrightarrow> r = Inl (HubspotError e'))"
    by (simp add: search_records_def)
  then show "\<exists>r w' tr.
      search_records py_int script_client ot filters \<lparr>cstate = s, calls = l\<rparr> = Some (r, w') \<and>
      calls w' = l @ tr \<and>
      (\<forall>req e'. (req, Inl e') \<in> set tr \<longrightarrow> r = Inl (HubspotError e'))"
    by blast
qed

lemma py_str_0: "py_str 0 = ''0''"
  by (simp add: py_str_def str_nat.simps digit_char_def)

theorem search_error_aborts_and_propagates_witness:
  "\<exists>w'. search_records (\<lambda>s. if s = ''1'' then Some 1 else None) script_client ''contacts''
          (FilterList [build_property_exists_filter ''email''])
          \<lparr>cstate = [Inr \<lparr>total = 3, results = [HsObject ''1'' []], paging_after = Some ''1''\<rparr>,
                     Inl (RateLimitError (Some 10))],
           calls = []\<rparr> =
        Some (Inl (HubspotError (RateLimitError (Some 10))), w')"
proof -
  let ?py = "\<lambda>s. if s = ''1'' then Some (1::int) else None"
  let ?fs = "FilterList [build_property_exists_filter ''email'']"
  let ?w = "\<lparr>cstate = [Inr \<lparr>total = 3, results = [HsObject ''1'' []], paging_after = Some ''1''\<rparr>,
                     Inl (RateLimitError (Some 10))],
           calls = []\<rparr>"
  have ev: "(Post (search_endpoint ''contacts'')
               (SearchBody ((create_search_payload
                  [build_property_exists_filter ''email'',
                   \<lparr>propertyName = ''hs_object_id'', operator = ''GT'', filter_value = Some ''0''\<rparr>] 200)
                  \<lparr>after := Some ''1''\<rparr>)),
             Inl (RateLimitError (Some 10))) \<in>
            set (calls (snd (the (search_records ?py script_client ''contacts'' ?fs ?w))))"
    by code_simp
  from search_error_aborts_and_propagates
    [where py_int = ?py and ot = "''contacts''" and filters = ?fs and l = "[]"
       and s = "[Inr \<lparr>total = 3, results = [HsObject ''1'' []], paging_after = Some ''1''\<rparr>,
                 Inl (RateLimitError (Some 10))]", THEN conjunct2, THEN conjunct2]
  obtain r w' tr where
    run: "search_records ?py script_client ''contacts'' ?fs ?w = Some (r, w')"
    and tr: "calls w' = [] @ tr"
    and err: "\<forall>req e'. (req, Inl e') \<in> set tr \<longrightarrow> r = Inl (HubspotError e')"
    by blast
  from ev run tr have "(Post (search_endpoint ''contacts'')
               (SearchBody ((create_search_payload
                  [build_property_exists_filter ''email'',
                   \<lparr>propertyName = ''hs_object_id'', operator = ''GT'', filter_value = Some ''0''\<rparr>] 200)
                  \<lparr>after := Some ''1''\<rparr>)),
             Inl (RateLimitError (Some 10))) \<in> set tr"
    by simp
  with err have "r = Inl (HubspotError (RateLimitError (Some 10)))"
    by blast
  with run show ?thesis by blast
qed

lemma paginate_no_cursor:
  "\<not> truthy a \<Longrightarrow> paginate py_int cl ot payload a batch lid w = Some (Inr (batch, lid), w)"
  by (subst paginate.simps) simp

lemma paginate_cap_reached:
  assumes "truthy a"
    and "call cl (Post (search_endpoint ot) (SearchBody (payload\<lparr>after := a\<rparr>))) w = (Inr resp, w1)"
    and "collect_page py_int (results resp) batch lid = Inr (batch', lid')"
    and "10000 \<le> length batch'"
  shows "paginate py_int cl ot payload a batch lid w = Some (Inr (batch', lid'), w1)"
  using assms by (subst paginate.simps) simp

lemma collect_page_refs:
  "collect_page py_int rs batch lid = Inr (batch', lid') \<Longrightarrow>
   batch' = batch @ map (\<lambda>r. RecordRef (obj_id r)) rs"
proof (induction rs arbitrary: batch lid)
  case Nil
  then show ?case by simp
next
  case (Cons r rs)
  from Cons.prems obtain i where
    c: "collect_page py_int rs (batch @ [RecordRef (obj_id r)]) i = Inr (batch', lid')"
    by (auto split: option.splits)
  from Cons.IH [OF c] show ?case by simp
qed

lemma paginate_drain:
  "length batch < 10000 \<Longrightarrow>
   \<exists>r s' tr.
      paginate py_int script_client ot payload a batch lid \<lparr>cstate = s, calls = l\<rparr> =
        Some (r, \<lparr>cstate = s', calls = l @ tr\<rparr>) \<and>
      replay script_client s tr = Some s' \<and>
      drain_calls ot payload a (length batch) tr \<and>
      (\<forall>b' l'. r = Inr (b', l') \<longrightarrow>
         b' = batch @ map (\<lambda>r. RecordRef (obj_id r)) (concat (map results (pages_read tr))) \<and>
         (\<not> truthy (last (a # map paging_after (pages_read tr))) \<or> 10000 \<le> length b'))"
proof (induction s arbitrary: payload a batch lid l)
  case Nil
  show ?case
  proof (cases "truthy a")
    case False
    then have "paginate py_int script_client ot payload a batch lid \<lparr>cstate = [], calls = l\<rparr> =
        Some (Inr (batch, lid), \<lparr>cstate = [], calls = l @ []\<rparr>)"
      by (subst paginate.simps) simp
    moreover have "replay script_client [] [] = Some []" by simp
    moreover have "drain_calls ot payload a (length batch) []" by simp
    moreover from False have "\<forall>b' l'. Inr (batch, lid) = (Inr (b', l') :: exn + (record_ref list \<times> int)) \<longrightarrow>
         b' = batch @ map (\<lambda>r. RecordRef (obj_id r)) (concat (map results (pages_read []))) \<and>
         (\<not> truthy (last (a # map paging_after (pages_read []))) \<or> 10000 \<le> length b')"
      by simp
    ultimately show ?thesis by blast
  next
    case True
    let ?req = "Post (search_endpoint ot) (SearchBody (payload\<lparr>after := a\<rparr>))"
    let ?tr = "[(?req, Inl TransportError)]"
    from True have "paginate py_int script_client ot payload a batch lid \<lparr>cstate = [], calls = l\<rparr> =
        Some (Inl (HubspotError TransportError), \<lparr>cstate = [], calls = l @ ?tr\<rparr>)"
      by (subst paginate.simps) (simp add: call_script_Nil)
    moreover have "replay script_client [] ?tr = Some []" by (simp add: script_client_def)
    moreover have "drain_calls ot payload a (length batch) ?tr"
      using True Nil by simp
    moreover have "\<forall>b' l'. Inl (HubspotError TransportError) = (Inr (b', l') :: exn + (record_ref list \<times> int)) \<longrightarrow>
         b' = batch @ map (\<lambda>r. RecordRef (obj_id r)) (concat (map results (pages_read ?tr))) \<and>
         (\<not> truthy (last (a # map paging_after (pages_read ?tr))) \<or> 10000 \<le> length b')"
      by simp
    ultimately show ?thesis by blast
  qed
next
  case (Cons x s)
  let ?req = "Post (search_endpoint ot) (SearchBody (payload\<lparr>after := a\<rparr>))"
  note small = Cons.prems
  show ?case
  proof (cases "truthy a")
    case False
    then have "paginate py_int script_client ot payload a batch lid \<lparr>cstate = x # s, calls = l\<rparr> =
        Some (Inr (batch, lid), \<lparr>cstate = x # s, calls = l @ []\<rparr>)"
      by (subst paginate.simps) simp
    moreover have "replay script_client (x # s) [] = Some (x # s)" by simp
    moreover have "drain_calls ot payload a (length batch) []" by simp
    moreover from False have "\<forall>b' l'. Inr (batch, lid) = (Inr (b', l') :: exn + (record_ref list \<times> int)) \<longrightarrow>
         b' = batch @ map (\<lambda>r. RecordRef (obj_id r)) (concat (map results (pages_read []))) \<and>
         (\<not> truthy (last (a # map paging_after (pages_read []))) \<or> 10000 \<le> length b')"
      by simp
    ultimately show ?thesis by blast
  next
    case True
    let ?tr = "[(?req, x)]"
    have rp: "replay script_client (x # s) ?tr = Some s"
      by (simp add: script_client_def)
    show ?thesis
    proof (cases x)
      case (Inl e)
      with True have "paginate py_int script_client ot payload a batch lid \<lparr>cstate = x # s, calls = l\<rparr> =
          Some (Inl (HubspotError e), \<lparr>cstate = s, calls = l @ ?tr\<rparr>)"
        by (subst paginate.simps) (simp add: call_script)
      moreover have "drain_calls ot payload a (length batch) ?tr"
        using True small Inl by simp
      moreover have "\<forall>b' l'. Inl (HubspotError e) = (Inr (b', l') :: exn + (record_ref list \<times> int)) \<longrightarrow>
         b' = batch @ map (\<lambda>r. RecordRef (obj_id r)) (concat (map results (pages_read ?tr))) \<and>
         (\<not> truthy (last (a # map paging_after (pages_read ?tr))) \<or> 10000 \<le> length b')"
        by simp
      ultimately show ?thesis using rp by blast
    next
      case (Inr resp)
      have dc: "drain_calls ot payload a (length batch) ?tr"
        using True small Inr by simp
      show ?thesis
      proof (cases "collect_page py_int (results resp) batch lid")
        case (Inl err)
        with True \<open>x = Inr resp\<close> have "paginate py_int script_client ot payload a batch lid
              \<lparr>cstate = x # s, calls = l\<rparr> =
            Some (Inl err, \<lparr>cstate = s, calls = l @ ?tr\<rparr>)"
          by (subst paginate.simps) (simp add: call_script)
        moreover have "\<forall>b' l'. Inl err = (Inr (b', l') :: exn + (record_ref list \<times> int)) \<longrightarrow>
           b' = batch @ map (\<lambda>r. RecordRef (obj_id r)) (concat (map results (pages_read ?tr))) \<and>
           (\<not> truthy (last (a # map paging_after (pages_read ?tr))) \<or> 10000 \<le> length b')"
          by simp
        ultimately show ?thesis using rp dc by blast
      next
        case cp: (Inr bl)
        obtain b1 l1 where bl: "bl = (b1, l1)" by (cases bl)
        from cp bl have refs: "b1 = batch @ map (\<lambda>r. RecordRef (obj_id r)) (results resp)"
          by (simp add: collect_page_refs)
        then have len: "length b1 = length batch + length (results resp)" by simp
        show ?thesis
        proof (cases "10000 \<le> length b1")
          case big: True
          with True \<open>x = Inr resp\<close> cp bl
          have "paginate py_int script_client ot payload a batch lid
                \<lparr>cstate = x # s, calls = l\<rparr> =
              Some (Inr (b1, l1), \<lparr>cstate = s, calls = l @ ?tr\<rparr>)"
            by (subst paginate.simps) (simp add: call_script)
          moreover from big refs \<open>x = Inr resp\<close>
          have "\<forall>b' l'. Inr (b1, l1) = (Inr (b', l') :: exn + (record_ref list \<times> int)) \<longrightarrow>
             b' = batch @ map (\<lambda>r. RecordRef (obj_id r)) (concat (map results (pages_read ?tr))) \<and>
             (\<not> truthy (last (a # map paging_after (pages_read ?tr))) \<or> 10000 \<le> length b')"
            by simp
          ultimately show ?thesis using rp dc by blast
        next
          case notbig: False
          then have "length b1 < 10000" by simp
          from Cons.IH [OF this, of "payload\<lparr>after := a\<rparr>" "paging_after resp" l1
              "l @ [(?req, Inr resp)]"]
          obtain r s' tr where
            run: "paginate py_int script_client ot (payload\<lparr>after := a\<rparr>) (paging_after resp)
                    b1 l1 \<lparr>cstate = s, calls = l @ [(?req, Inr resp)]\<rparr> =
                  Some (r, \<lparr>cstate = s', calls = (l @ [(?req, Inr resp)]) @ tr\<rparr>)"
            and rep: "replay script_client s tr = Some s'"
            and dr: "drain_calls ot (payload\<lparr>after := a\<rparr>) (paging_after resp) (length b1) tr"
            and fin: "\<forall>b' l'. r = Inr (b', l') \<longrightarrow>
               b' = b1 @ map (\<lambda>r. RecordRef (obj_id r)) (concat (map results (pages_read tr))) \<and>
               (\<not> truthy (last (paging_after resp # map paging_after (pages_read tr))) \<or>
                10000 \<le> length b')"
            by blast
          let ?all = "(?req, Inr resp) # tr"
          from True \<open>x = Inr resp\<close> cp bl notbig run
          have "paginate py_int script_client ot payload a batch lid
                \<lparr>cstate = x # s, calls = l\<rparr> =
              Some (r, \<lparr>cstate = s', calls = l @ ?all\<rparr>)"
            by (subst paginate.simps) (simp add: call_script)
          moreover from rep \<open>x = Inr resp\<close> have "replay script_client (x # s) ?all = Some s'"
            by (simp add: script_client_def)
          moreover have "drain_calls ot payload a (length batch) ?all"
            using True small dr len by (simp add: drain_calls_payload)
          moreover from fin refs have "\<forall>b' l'. r = Inr (b', l') \<longrightarrow>
               b' = batch @ map (\<lambda>r. RecordRef (obj_id r)) (concat (map results (pages_read ?all))) \<and>
               (\<not> truthy (last (a # map paging_after (pages_read ?all))) \<or> 10000 \<le> length b')"
            by simp
          ultimately show ?thesis by blast
        qed
      qed
    qed
  qed
qed

lemma process_search_batch_drain:
  assumes "length (results resp0) < 10000"
  shows "\<exists>r s' tr.
      process_search_batch py_int script_client ot resp0 payload \<lparr>cstate = s, calls = l\<rparr> =
        Some (r, \<lparr>cstate = s', calls = l @ tr\<rparr>) \<and>
      replay script_client s tr = Some s' \<and>
      drain_calls ot payload (paging_after resp0) (length (results resp0)) tr \<and>
      (\<forall>b' l'. r = Inr (b', l') \<longrightarrow>
         b' = map (\<lambda>r. RecordRef (obj_id r)) (results resp0 @ concat (map results (pages_read tr))) \<and>
         (\<not> truthy (last (map paging_after (resp0 # pages_read tr))) \<or> 10000 \<le> length b'))"
proof (cases "collect_page py_int (results resp0) [] 0")
  case (Inl err)
  then have "process_search_batch py_int script_client ot resp0 payload \<lparr>cstate = s, calls = l\<rparr> =
      Some (Inl err, \<lparr>cstate = s, calls = l @ []\<rparr>)"
    by (simp add: process_search_batch_def)
  moreover have "replay script_client s [] = Some s" by simp
  moreover have "drain_calls ot payload (paging_after resp0) (length (results resp0)) []"
    by simp
  moreover have "\<forall>b' l'. Inl err = (Inr (b', l') :: exn + (record_ref list \<times> int)) \<longrightarrow>
         b' = map (\<lambda>r. RecordRef (obj_id r)) (results resp0 @ concat (map results (pages_read []))) \<and>
         (\<not> truthy (last (map paging_after (resp0 # pages_read []))) \<or> 10000 \<le> length b')"
    by simp
  ultimately show ?thesis by blast
next
  case (Inr bl)
  obtain batch lid where bl: "bl = (batch, lid)" by (cases bl)
  from Inr bl have refs: "batch = map (\<lambda>r. RecordRef (obj_id r)) (results resp0)"
    using collect_page_refs [of py_int "results resp0" "[]" 0 batch lid] by simp
  then have len: "length batch = length (results resp0)" by simp
  with assms have small: "length batch < 10000" by simp
  from Inr bl have eq: "process_search_batch py_int script_client ot resp0 payload
        \<lparr>cstate = s, calls = l\<rparr> =
      paginate py_int script_client ot payload (paging_after resp0) batch lid
        \<lparr>cstate = s, calls = l\<rparr>"
    by (simp add: process_search_batch_def)
  from paginate_drain [OF small, of py_int ot payload "paging_after resp0" lid s l]
  obtain r s' tr where
    run: "paginate py_int script_client ot payload (paging_after resp0) batch lid
            \<lparr>cstate = s, calls = l\<rparr> = Some (r, \<lparr>cstate = s', calls = l @ tr\<rparr>)"
    and rep: "replay script_client s tr = Some s'"
    and dr: "drain_calls ot payload (paging_after resp0) (length batch) tr"
    and fin: "\<forall>b' l'. r = Inr (b', l') \<longrightarrow>
         b' = batch @ map (\<lambda>r. RecordRef (obj_id r)) (concat (map results (pages_read tr))) \<and>
         (\<not> truthy (last (paging_after resp0 # map paging_after (pages_read tr))) \<or>
          10000 \<le> length b')"
    by blast
  from run have "process_search_batch py_int script_client ot resp0 payload
        \<lparr>cstate = s, calls = l\<rparr> = Some (r, \<lparr>cstate = s', calls = l @ tr\<rparr>)"
    by (simp only: eq)
  moreover from dr have "drain_calls ot payload (paging_after resp0) (length (results resp0)) tr"
    by (simp only: len)
  moreover from fin refs have "\<forall>b' l'. r = Inr (b', l') \<longrightarrow>
         b' = map (\<lambda>r. RecordRef (obj_id r)) (results resp0 @ concat (map results (pages_read tr))) \<and>
         (\<not> truthy (last (map paging_after (resp0 # pages_read tr))) \<or> 10000 \<le> length b')"
    by simp
  ultimately show ?thesis using rep by blast
qed

text \<open>
  C4. With any client, the drain loop of \<^verbatim>\<open>_process_search_batch\<close> makes no request when
  the cursor is absent, and when the page it has just read brings the leg to 10000 records
  or more it returns at once, whatever cursor that page carries. A leg's first page answers
  a request for at most 200 records; for every first page of fewer than 10000 records and
  every finite sequence of store responses the leg ends, and its pagination requests are
  these: each was made while a cursor was present and fewer than 10000 records had
  accumulated, and it carried the leg's payload, the same predicates, sort and page size,
  with only the cursor of the page before it put in (\<open>drain_calls\<close>); their outcomes are
  the store's own answers (\<open>replay\<close>). The loop does not stop earlier either: when the leg
  returns its records, these are the records of the first page and of every page read
  after it, in order, and the last page read carries no cursor or the leg holds 10000
  records or more.
\<close>

theorem drain_stops_at_cap_or_absent_cursor:
  "(\<not> truthy a \<longrightarrow>
      paginate py_int cl ot payload a batch lid w = Some (Inr (batch, lid), w)) \<and>
   (truthy a \<and>
    call cl (Post (search_endpoint ot) (SearchBody (payload\<lparr>after := a\<rparr>))) w = (Inr resp, w1) \<and>
    collect_page py_int (results resp) batch lid = Inr (batch', lid') \<and>
    10000 \<le> length batch' \<longrightarrow>
      paginate py_int cl ot payload a batch lid w = Some (Inr (batch', lid'), w1)) \<and>
   (length (results resp0) < 10000 \<longrightarrow>
      (\<exists>r s' tr.
         process_search_batch py_int script_client ot resp0 payload \<lparr>cstate = s, calls = l\<rparr> =
           Some (r, \<lparr>cstate = s', calls = l @ tr\<rparr>) \<and>
         replay script_client s tr = Some s' \<and>
         drain_calls ot payload (paging_after resp0) (length (results resp0)) tr \<and>
         (\<forall>b' l'. r = Inr (b', l') \<longrightarrow>
            b' = map (\<lambda>r. RecordRef (obj_id r))
                   (results resp0 @ concat (map results (pages_read tr))) \<and>
            (\<not> truthy (last (map paging_after (resp0 # pages_read tr))) \<or>
             10000 \<le> length b'))))"
proof (intro conjI impI)
  assume "\<not> truthy a"
  then show "paginate py_int cl ot payload a batch lid w = Some (Inr (batch, lid), w)"
    by (rule paginate_no_cursor)
next
  assume "truthy a \<and>
    call cl (Post (search_endpoint ot) (SearchBody (payload\<lparr>after := a\<rparr>))) w = (Inr resp, w1) \<and>
    collect_page py_int (results resp) batch lid = Inr (batch', lid') \<and>
    10000 \<le> length batch'"
  then show "paginate py_int cl ot payload a batch lid w = Some (Inr (batch', lid'), w1)"
    by (simp add: paginate_cap_reached)
next
  assume "length (results resp0) < 10000"
  then show "\<exists>r s' tr.
         process_search_batch py_int script_client ot resp0 payload \<lparr>cstate = s, calls = l\<rparr> =
           Some (r, \<lparr>cstate = s', calls = l @ tr\<rparr>) \<and>
         replay script_client s tr = Some s' \<and>
         drain_calls ot payload (paging_after resp0) (length (results resp0)) tr \<and>
         (\<forall>b' l'. r = Inr (b', l') \<longrightarrow>
            b' = map (\<lambda>r. RecordRef (obj_id r))
                   (results resp0 @ concat (map results (pages_read tr))) \<and>
            (\<not> truthy (last (map paging_after (resp0 # pages_read tr))) \<or>
             10000 \<le> length b'))"
    by (rule process_search_batch_drain)
qed

theorem drain_stops_at_cap_or_absent_cursor_witness:
  "process_search_batch (\<lambda>s. if s = ''7'' then Some 7 else None) script_client ''contacts''
     \<lparr>total = 4, results = [HsObject ''7'' [], HsObject ''7'' []], paging_after = Some ''2''\<rparr>
     (create_search_payload [] 200)
     \<lparr>cstate = [Inr \<lparr>total = 4, results = [HsObject ''7'' []], paging_after = Some ''3''\<rparr>,
                Inr \<lparr>total = 4, results = [HsObject ''7'' []], paging_after = None\<rparr>],
      calls = []\<rparr> =
   Some (Inr (replicate 4 (RecordRef ''7''), 7),
         \<lparr>cstate = [],
          calls = [(Post (search_endpoint ''contacts'')
                      (SearchBody ((create_search_payload [] 200)\<lparr>after := Some ''2''\<rparr>)),
                    Inr \<lparr>total = 4, results = [HsObject ''7'' []], paging_after = Some ''3''\<rparr>),
                   (Post (search_endpoint ''contacts'')
                      (SearchBody ((create_search_payload [] 200)\<lparr>after := Some ''3''\<rparr>)),
                    Inr \<lparr>total = 4, results = [HsObject ''7'' []], paging_after = None\<rparr>)]\<rparr>) \<and>
   drain_calls ''contacts'' (create_search_payload [] 200) (Some ''2'') 2
     [(Post (search_endpoint ''contacts'')
         (SearchBody ((create_search_payload [] 200)\<lparr>after := Some ''2''\<rparr>)),
       Inr \<lparr>total = 4, results = [HsObject ''7'' []], paging_after = Some ''3''\<rparr>),
      (Post (search_endpoint ''contacts'')
         (SearchBody ((create_search_payload [] 200)\<lparr>after := Some ''3''\<rparr>)),
       Inr \<lparr>total = 4, results = [HsObject ''7'' []], paging_after = None\<rparr>)]"
proof -
  let ?py = "\<lambda>s. if s = ''7'' then Some (7::int) else None"
  let ?r0 = "\<lparr>total = 4, results = [HsObject ''7'' [], HsObject ''7'' []],
              paging_after = Some ''2''\<rparr>"
  let ?p = "create_search_payload [] 200"
  let ?s = "[Inr \<lparr>total = 4, results = [HsObject ''7'' []], paging_after = Some ''3''\<rparr>,
             Inr \<lparr>total = 4, results = [HsObject ''7'' []], paging_after = None\<rparr>]"
  let ?TR = "[(Post (search_endpoint ''contacts'') (SearchBody (?p\<lparr>after := Some ''2''\<rparr>)),
               Inr \<lparr>total = 4, results = [HsObject ''7'' []], paging_after = Some ''3''\<rparr>),
              (Post (search_endpoint ''contacts'') (SearchBody (?p\<lparr>after := Some ''3''\<rparr>)),
               Inr \<lparr>total = 4, results = [HsObject ''7'' []], paging_after = None\<rparr>)]"
  have ev: "process_search_batch ?py script_client ''contacts'' ?r0 ?p \<lparr>cstate = ?s, calls = []\<rparr> =
      Some (Inr (replicate 4 (RecordRef ''7''), 7), \<lparr>cstate = [], calls = ?TR\<rparr>)"
    by code_simp
  have h: "length (results ?r0) < 10000" by simp
  from drain_stops_at_cap_or_absent_cursor
    [where py_int = ?py and ot = "''contacts''" and ?resp0.0 = ?r0 and payload = ?p
       and s = ?s and l = "[]", THEN conjunct2, THEN conjunct2, rule_format, OF h]
  obtain r s' tr where
    run: "process_search_batch ?py script_client ''contacts'' ?r0 ?p \<lparr>cstate = ?s, calls = []\<rparr> =
            Some (r, \<lparr>cstate = s', calls = [] @ tr\<rparr>)"
    and dr: "drain_calls ''contacts'' ?p (paging_after ?r0) (length (results ?r0)) tr"
    by blast
  from ev run have "tr = ?TR" by simp
  with dr have "drain_calls ''contacts'' ?p (Some ''2'') 2 ?TR"
    by (simp add: numeral_2_eq_2)
  with ev show ?thesis by (simp only: simp_thms)
qed

lemma collect_page_extends:
  "collect_page py_int rs batch lid = Inr (batch', lid') \<Longrightarrow>
   \<exists>ys. batch' = batch @ ys \<and> length ys = length rs \<and> (rs = [] \<longrightarrow> lid' = lid)"
proof (induction rs arbitrary: batch lid)
  case Nil
  then show ?case by simp
next
  case (Cons r rs)
  from Cons.prems obtain i where i: "py_int (obj_id r) = Some i"
    and c: "collect_page py_int rs (batch @ [RecordRef (obj_id r)]) i = Inr (batch', lid')"
    by (auto split: option.splits)
  from Cons.IH [OF c] obtain ys where
    "batch' = (batch @ [RecordRef (obj_id r)]) @ ys" "length ys = length rs"
    by blast
  then have "batch' = batch @ (RecordRef (obj_id r) # ys) \<and>
      length (RecordRef (obj_id r) # ys) = length (r # rs)"
    by simp
  then show ?case by blast
qed

lemma call_stalled:
  "call stalled_store req w =
     (Inr \<lparr>total = 10000, results = [], paging_after = None\<rparr>,
      \<lparr>cstate = cstate w,
       calls = calls w @ [(req, Inr \<lparr>total = 10000, results = [], paging_after = None\<rparr>)]\<rparr>)"
  by (simp add: call_def stalled_store_def)

lemma stalled_search_never_returns:
  "search_loop py_int cl ot filters acc t w = Some y \<Longrightarrow>
   cl = stalled_store \<Longrightarrow> filters = FilterList fs \<Longrightarrow> False"
proof (induction rule: search_loop.raw_induct [rotated 1, consumes 1, case_names 1])
  case (1 loop py_int cl ot filters acc t w y)
  from "1.prems" have
    "process_search_batch py_int cl ot \<lparr>total = 10000, results = [], paging_after = None\<rparr>
       (create_search_payload
          (fs @ [\<lparr>propertyName = ''hs_object_id'', operator = ''GT'',
                   filter_value = Some (py_str t)\<rparr>]) 200)
       \<lparr>cstate = cstate w,
        calls = calls w @
          [(Post (search_endpoint ot)
              (SearchBody (create_search_payload
                 (fs @ [\<lparr>propertyName = ''hs_object_id'', operator = ''GT'',
                          filter_value = Some (py_str t)\<rparr>]) 200)),
            Inr \<lparr>total = 10000, results = [], paging_after = None\<rparr>)]\<rparr> =
     Some (Inr ([], 0),
       \<lparr>cstate = cstate w,
        calls = calls w @
          [(Post (search_endpoint ot)
              (SearchBody (create_search_payload
                 (fs @ [\<lparr>propertyName = ''hs_object_id'', operator = ''GT'',
                          filter_value = Some (py_str t)\<rparr>]) 200)),
            Inr \<lparr>total = 10000, results = [], paging_after = None\<rparr>)]\<rparr>)"
    by (simp add: process_search_batch_def paginate_no_cursor truthy_def)
  with "1.hyps" "1.prems" have "\<exists>w'. loop py_int cl ot filters acc 0 w' = Some y"
    by (auto simp add: add_id_threshold_filter_def call_stalled)
  with "1.IH" "1.prems" show False by blast
qed

text \<open>
  The claim of C2 as the specification words it fails: against the store that reports
  10000 matches and returns no record, each leg drains nothing, no error is raised, the
  threshold stays 0, and \<^verbatim>\<open>_search_records\<close> never returns.
\<close>

theorem stalled_search_counterexample:
  "search_records (\<lambda>s. None) stalled_store ''contacts'' (FilterList [])
     \<lparr>cstate = (), calls = []\<rparr> = None"
proof (cases "search_records (\<lambda>s. None) stalled_store ''contacts'' (FilterList [])
     \<lparr>cstate = (), calls = []\<rparr>")
  case None
  then show ?thesis .
next
  case (Some y)
  then have "search_loop (\<lambda>s. None) stalled_store ''contacts'' (FilterList []) [] 0
     \<lparr>cstate = (), calls = []\<rparr> = Some y"
    by (simp add: search_records_def)
  from stalled_search_never_returns [OF this refl refl] show ?thesis ..
qed

lemma paginate_extends:
  "paginate py_int cl ot payload a batch lid w = Some y \<Longrightarrow>
   fst y = Inr (batch', lid') \<Longrightarrow>
   \<exists>ys. batch' = batch @ ys \<and> (ys = [] \<longrightarrow> lid' = lid)"
proof (induction rule: paginate.raw_induct [rotated 1, consumes 1, case_names 1])
  case (1 pag py_int cl ot payload a batch lid w y)
  show ?case
  proof (cases "truthy a")
    case False
    with "1.hyps" "1.prems" show ?thesis by auto
  next
    case True
    obtain out w1 where c: "call cl (Post (search_endpoint ot) (SearchBody (payload\<lparr>after := a\<rparr>))) w = (out, w1)"
      by (cases "call cl (Post (search_endpoint ot) (SearchBody (payload\<lparr>after := a\<rparr>))) w")
    show ?thesis
    proof (cases out)
      case (Inl e)
      with True c "1.hyps" "1.prems" show ?thesis by auto
    next
      case (Inr resp)
      show ?thesis
      proof (cases "collect_page py_int (results resp) batch lid")
        case (Inl err)
        with True c Inr "1.hyps" "1.prems" show ?thesis by auto
      next
        case cp: (Inr bl)
        obtain b1 l1 where bl: "bl = (b1, l1)" by (cases bl)
        from collect_page_extends [of py_int "results resp" batch lid b1 l1] cp bl
        obtain ys where ys: "b1 = batch @ ys" "length ys = length (results resp)"
            "results resp = [] \<longrightarrow> l1 = lid"
          by auto
        show ?thesis
        proof (cases "10000 \<le> length b1")
          case big: True
          with True c Inr cp bl "1.hyps" "1.prems" have "batch' = b1" "lid' = l1"
            by auto
          with ys show ?thesis by auto
        next
          case False
          with True c Inr cp bl "1.hyps"
          have "pag py_int cl ot (payload\<lparr>after := a\<rparr>) (paging_after resp) b1 l1 w1 = Some y"
            by simp
          from "1.IH" [OF this "1.prems"] obtain zs where
            zs: "batch' = b1 @ zs" "zs = [] \<longrightarrow> lid' = l1"
            by blast
          with ys have "batch' = batch @ (ys @ zs) \<and> (ys @ zs = [] \<longrightarrow> lid' = lid)"
            by auto
          then show ?thesis by blast
        qed
      qed
    qed
  qed
qed

lemma process_search_batch_empty:
  assumes "process_search_batch py_int cl ot resp payload w = Some (Inr ([], lid), w')"
  shows "lid = 0"
proof (cases "collect_page py_int (results resp) [] 0")
  case (Inl err)
  with assms show ?thesis by (simp add: process_search_batch_def)
next
  case (Inr bl)
  obtain b1 l1 where bl: "bl = (b1, l1)" by (cases bl)
  from collect_page_extends [of py_int "results resp" "[]" 0 b1 l1] Inr bl
  obtain ys where ys: "b1 = ys" "length ys = length (results resp)" "results resp = [] \<longrightarrow> l1 = 0"
    by auto
  from assms Inr bl have "paginate py_int cl ot payload (paging_after resp) b1 l1 w =
      Some (Inr ([], lid), w')"
    by (simp add: process_search_batch_def)
  from paginate_extends [OF this, of "[]" lid] obtain zs where "[] = b1 @ zs" "zs = [] \<longrightarrow> lid = l1"
    by auto
  with ys show ?thesis by auto
qed

text \<open>
  C2, as the code has it. With any client, a leg whose first response reports a positive
  total and whose drain ends with no record raises nothing. Its last id is 0, whatever the
  threshold was. When the total is below 10000 the search ends and returns what the earlier
  legs collected; otherwise the loop starts another leg with the threshold back at 0.
  Neither a threshold that grows from leg to leg nor the return of the search follows.
\<close>

theorem zero_drain_leg_raises_nothing:
  assumes "add_id_threshold_filter filters t = Inr cf"
    and "call cl (Post (search_endpoint ot) (SearchBody (create_search_payload cf 200))) w =
           (Inr resp, w1)"
    and "0 < total resp"
    and "process_search_batch py_int cl ot resp (create_search_payload cf 200) w1 =
           Some (Inr ([], lid), w2)"
  shows "lid = 0 \<and>
         search_loop py_int cl ot filters acc t w =
           (if total resp < 10000 then Some (Inr acc, w2)
            else search_loop py_int cl ot filters acc 0 w2)"
proof
  from assms(4) show z: "lid = 0" by (rule process_search_batch_empty)
  from assms z show "search_loop py_int cl ot filters acc t w =
           (if total resp < 10000 then Some (Inr acc, w2)
            else search_loop py_int cl ot filters acc 0 w2)"
    by (subst search_loop.simps) simp
qed

theorem zero_drain_leg_raises_nothing_witness:
  "search_loop (\<lambda>s. None) script_client ''contacts'' (FilterList []) [RecordRef ''4''] 4
     \<lparr>cstate = [Inr \<lparr>total = 5, results = [], paging_after = None\<rparr>], calls = []\<rparr> =
   Some (Inr [RecordRef ''4''],
     \<lparr>cstate = [],
      calls = [(Post (search_endpoint ''contacts'')
                 (SearchBody (create_search_payload
                    [\<lparr>propertyName = ''hs_object_id'', operator = ''GT'',
                      filter_value = Some (py_str 4)\<rparr>] 200)),
                Inr \<lparr>total = 5, results = [], paging_after = None\<rparr>)]\<rparr>)"
  using zero_drain_leg_raises_nothing
    [where filters = "FilterList []" and t = 4
       and cf = "[\<lparr>propertyName = ''hs_object_id'', operator = ''GT'',
                      filter_value = Some (py_str 4)\<rparr>]"
       and cl = script_client and ot = "''contacts''"
       and w = "\<lparr>cstate = [Inr \<lparr>total = 5, results = [], paging_after = None\<rparr>], calls = []\<rparr>"
       and resp = "\<lparr>total = 5, results = [], paging_after = None\<rparr>"
       and ?w1.0 = "\<lparr>cstate = [],
              calls = [(Post (search_endpoint ''contacts'')
                 (SearchBody (create_search_payload
                    [\<lparr>propertyName = ''hs_object_id'', operator = ''GT'',
                      filter_value = Some (py_str 4)\<rparr>] 200)),
                Inr \<lparr>total = 5, results = [], paging_after = None\<rparr>)]\<rparr>"
       and ?w2.0 = "\<lparr>cstate = [],
              calls = [(Post (search_endpoint ''contacts'')
                 (SearchBody (create_search_payload
                    [\<lparr>propertyName = ''hs_object_id'', operator = ''GT'',
                      filter_value = Some (py_str 4)\<rparr>] 200)),
                Inr \<lparr>total = 5, results = [], paging_after = None\<rparr>)]\<rparr>"
       and py_int = "\<lambda>s. None" and lid = 0 and acc = "[RecordRef ''4'']"]
  by (simp add: add_id_threshold_filter_def call_script process_search_batch_def
      paginate_no_cursor truthy_def)

section \<open>The Filtered Search Enumerator on the synthetic store\<close>

lemma str_nat_not_Nil: "str_nat n \<noteq> []"
  by (subst str_nat.simps) simp

lemma py_str_not_Nil: "py_str i \<noteq> []"
  by (simp add: py_str_def str_nat_not_Nil)

lemma truthy_py_str: "truthy (Some (py_str i))"
  by (simp add: truthy_def py_str_not_Nil)

lemma py_str_nat: "py_str (int n) = str_nat n"
  by (simp add: py_str_def)

lemma digit_of_digit_char: "d < 10 \<Longrightarrow> digit_of (digit_char d) = Some d"
proof -
  assume "d < 10"
  then have "d = 0 \<or> d = 1 \<or> d = 2 \<or> d = 3 \<or> d = 4 \<or> d = 5 \<or> d = 6 \<or> d = 7 \<or> d = 8 \<or> d = 9"
    by arith
  then show ?thesis
    by (elim disjE) (simp_all add: digit_of_def digit_char_def)
qed

lemma parse_digits_append:
  "parse_digits (xs @ ys) acc =
     (case parse_digits xs acc of None \<Rightarrow> None | Some a \<Rightarrow> parse_digits ys a)"
  by (induction xs arbitrary: acc) (simp_all split: option.split)

lemma parse_digits_str_nat: "parse_digits (str_nat n) 0 = Some n"
proof (induction n rule: str_nat.induct)
  case (1 n)
  show ?case
  proof (cases "n < 10")
    case True
    then show ?thesis
      by (subst str_nat.simps) (simp add: digit_of_digit_char)
  next
    case False
    with 1 have "parse_digits (str_nat (n div 10)) 0 = Some (n div 10)" by simp
    with False show ?thesis
      by (subst str_nat.simps) (simp add: parse_digits_append digit_of_digit_char)
  qed
qed

lemma decimal_int_py_str: "decimal_int (py_str (int n)) = Some (int n)"
  by (simp add: decimal_int_def py_str_nat str_nat_not_Nil parse_digits_str_nat)

lemma take_upt_min: "take m [i..<n] = [i..<min (i + m) n]"
proof (cases "i + m \<le> n")
  case True
  then show ?thesis by (simp add: min_def)
next
  case False
  then show ?thesis by (simp add: min_def)
qed

lemma filter_gt_upt: "filter (\<lambda>i. t < i) [a..<b] = [max a (Suc t)..<b]"
proof (induction b)
  case 0
  show ?case by simp
next
  case (Suc b)
  show ?case
  proof (cases "a \<le> b")
    case True
    with Suc show ?thesis by (auto simp add: max_def)
  next
    case False
    then show ?thesis by simp
  qed
qed

lemma collect_page_upt:
  assumes rt: "\<forall>i\<le>N. dec (py_str (int i)) = Some (int i)" and b: "b \<le> Suc N"
  shows "collect_page dec (map (\<lambda>i. HsObject (py_str (int i)) []) [a..<b]) batch lid =
           Inr (batch @ map (\<lambda>i. RecordRef (py_str (int i))) [a..<b],
                if a < b then int (b - 1) else lid)"
proof (induction "b - a" arbitrary: a batch lid)
  case 0
  then show ?case by simp
next
  case (Suc k)
  then have ab: "a < b" and k: "k = b - Suc a" by simp_all
  from ab b have "a \<le> N" by simp
  with rt have d: "dec (py_str (int a)) = Some (int a)" by simp
  have u: "[a..<b] = a # [Suc a..<b]"
    using ab by (simp add: upt_conv_Cons)
  have l: "(if Suc a < b then int (b - 1) else int a) = int (b - 1)"
    using ab by auto
  show ?case
    unfolding u using Suc.hyps(1) [OF k, of "batch @ [RecordRef (py_str (int a))]" "int a"] ab
    by (simp add: d l)
qed

lemma synthetic_store_page:
  assumes rt: "\<forall>i\<le>N. dec (py_str (int i)) = Some (int i)"
    and sat: "\<forall>f\<in>set fs. \<forall>i. 1 \<le> i \<and> i \<le> N \<longrightarrow> filter_holds dec sat f i"
    and t: "t \<le> N"
    and p: "filterGroups p =
              [fs @ [\<lparr>propertyName = ''hs_object_id'', operator = ''GT'',
                       filter_value = Some (py_str (int t))\<rparr>]]"
           "limit p = 200"
           "sorts p = [(''hs_object_id'', ''ASCENDING'')]"
    and off: "after p = None \<and> off = 0 \<or> after p = Some (py_str (int off)) \<and> off \<le> N"
    and cap: "off < 10000"
  shows "synthetic_store dec sat capped N (Post ep (SearchBody p)) s =
           (Inr \<lparr>total = int (if capped then min (N - t) 10000 else N - t),
                 results = map (\<lambda>i. HsObject (py_str (int i)) [])
                             [Suc t + off..<min (Suc t + off + 200) (Suc N)],
                 paging_after = (if off + 200 < N - t
                                 then Some (py_str (int (off + 200))) else None)\<rparr>, s)"
proof -
  from rt t have dt: "dec (py_str (int t)) = Some (int t)" by simp
  have "filter (\<lambda>i. list_ex (list_all (\<lambda>f. filter_holds dec sat f i)) (filterGroups p)) [1..<Suc N] =
        filter (\<lambda>i. t < i) [1..<Suc N]"
  proof (rule filter_cong [OF refl])
    fix i assume "i \<in> set [1..<Suc N]"
    then have "1 \<le> i \<and> i \<le> N" by auto
    with sat have "\<forall>f\<in>set fs. filter_holds dec sat f i" by blast
    then show "list_ex (list_all (\<lambda>f. filter_holds dec sat f i)) (filterGroups p) = (t < i)"
      by (simp add: p list_all_iff filter_holds_def dt)
  qed
  then have m: "filter (\<lambda>i. list_ex (list_all (\<lambda>f. filter_holds dec sat f i)) (filterGroups p))
                  [1..<Suc N] = [Suc t..<Suc N]"
    by (simp add: filter_gt_upt max_def del: upt_Suc)
  have o: "(case after p of
              None \<Rightarrow> Some 0
            | Some c \<Rightarrow> (case dec c of
                           None \<Rightarrow> None
                         | Some k \<Rightarrow> if k < 0 then None else Some (nat k))) = Some off"
  proof -
    from off show ?thesis
    proof
      assume "after p = None \<and> off = 0"
      then show ?thesis by simp
    next
      assume a: "after p = Some (py_str (int off)) \<and> off \<le> N"
      with rt have "dec (py_str (int off)) = Some (int off)" by simp
      with a show ?thesis by simp
    qed
  qed
  have pg: "take 200 (drop off [Suc t..<Suc N]) = [Suc t + off..<min (Suc t + off + 200) (Suc N)]"
    by (simp add: take_upt_min add.commute del: upt_Suc)
  have len: "length [Suc t..<Suc N] = N - t" by (simp del: upt_Suc)
  show ?thesis
    unfolding synthetic_store_def
    by (simp only: request.case body.case Let_def m o option.case p(2) p(3) simp_thms if_True pg len)
      (use cap in simp)
qed

lemma upt_append_map:
  "a \<le> b \<Longrightarrow> b \<le> c \<Longrightarrow> map f [a..<b] @ map f [b..<c] = map f [a..<c]"
proof -
  assume "a \<le> b" "b \<le> c"
  then have "[a..<c] = [a..<b] @ [b..<c]"
    by (metis le_Suc_ex upt_add_eq_append)
  then show ?thesis by simp
qed

lemma step_below_cap: "200 dvd (off::nat) \<Longrightarrow> off < 10000 \<Longrightarrow> off + 200 \<le> 10000"
proof -
  assume "200 dvd off" and lt: "off < 10000"
  then obtain k where k: "off = 200 * k" by (auto simp add: dvd_def)
  with lt have "k < 50" by simp
  then have "k + 1 \<le> 50" by simp
  then have "200 * (k + 1) \<le> 200 * 50" by (rule mult_le_mono2)
  with k show ?thesis by simp
qed

lemma paginate_continue:
  assumes "truthy a"
    and "call cl (Post (search_endpoint ot) (SearchBody (payload\<lparr>after := a\<rparr>))) w = (Inr resp, w1)"
    and "collect_page py_int (results resp) batch lid = Inr (batch', lid')"
    and "\<not> 10000 \<le> length batch'"
  shows "paginate py_int cl ot payload a batch lid w =
           paginate py_int cl ot (payload\<lparr>after := a\<rparr>) (paging_after resp) batch' lid' w1"
  using assms by (subst paginate.simps) simp

lemma paginate_synthetic:
  assumes rt: "\<forall>i\<le>N. dec (py_str (int i)) = Some (int i)"
    and sat: "\<forall>f\<in>set fs. \<forall>i. 1 \<le> i \<and> i \<le> N \<longrightarrow> filter_holds dec sat f i"
    and t: "t \<le> N"
  shows "filterGroups p =
              [fs @ [\<lparr>propertyName = ''hs_object_id'', operator = ''GT'',
                       filter_value = Some (py_str (int t))\<rparr>]] \<Longrightarrow>
         limit p = 200 \<Longrightarrow> 200 dvd off \<Longrightarrow> off < 10000 \<Longrightarrow> off < N - t \<Longrightarrow>
         sorts p = [(''hs_object_id'', ''ASCENDING'')] \<Longrightarrow>
         \<exists>w'. paginate dec (synthetic_store dec sat capped N) ot p (Some (py_str (int off)))
                 (map (\<lambda>i. RecordRef (py_str (int i))) [Suc t..<Suc t + off]) lid w =
               Some (Inr (map (\<lambda>i. RecordRef (py_str (int i))) [Suc t..<Suc t + min (N - t) 10000],
                          int (t + min (N - t) 10000)), w')"
proof (induction "10000 - off" arbitrary: off p lid w rule: less_induct)
  case less
  let ?ref = "\<lambda>i. RecordRef (py_str (int i))"
  let ?obj = "\<lambda>i. HsObject (py_str (int i)) []"
  let ?c = "N - t"
  let ?m = "min (off + 200) ?c"
  let ?p' = "p\<lparr>after := Some (py_str (int off))\<rparr>"
  let ?req = "Post (search_endpoint ot) (SearchBody ?p')"
  let ?Rraw = "\<lparr>total = int (if capped then min ?c 10000 else ?c),
             results = map ?obj [Suc t + off..<min (Suc t + off + 200) (Suc N)],
             paging_after = (if off + 200 < ?c then Some (py_str (int (off + 200))) else None)\<rparr>"
  let ?R = "\<lparr>total = int (if capped then min ?c 10000 else ?c),
             results = map ?obj [Suc t + off..<Suc t + ?m],
             paging_after = (if off + 200 < ?c then Some (py_str (int (off + 200))) else None)\<rparr>"
  let ?w1 = "\<lparr>cstate = cstate w, calls = calls w @ [(?req, Inr ?R)]\<rparr>"
  note fg = less.prems(1) and lim = less.prems(2) and dv = less.prems(3)
    and lt = less.prems(4) and more = less.prems(5) and srt = less.prems(6)
  from more t have offN: "off \<le> N" by simp
  have e: "min (Suc t + off + 200) (Suc N) = Suc t + ?m"
    using t by (simp add: min_def) arith
  have s0: "synthetic_store dec sat capped N ?req (cstate w) = (Inr ?Rraw, cstate w)"
    by (rule synthetic_store_page [OF rt sat t _ _ _ _ lt]) (simp_all add: fg lim srt offN)
  have "(Inr ?Rraw :: remote_error + response) = Inr ?R"
    by (simp only: e)
  with s0 have "synthetic_store dec sat capped N ?req (cstate w) = (Inr ?R, cstate w)"
    by (simp only:)
  then have c: "call (synthetic_store dec sat capped N) ?req w = (Inr ?R, ?w1)"
    by (simp add: call_def)
  have mpos: "off < ?m" using more by simp
  have cp: "collect_page dec (results ?R) (map ?ref [Suc t..<Suc t + off]) lid =
              Inr (map ?ref [Suc t..<Suc t + ?m], int (t + ?m))"
  proof -
    have b: "Suc t + ?m \<le> Suc N" using t by simp
    have "collect_page dec (map ?obj [Suc t + off..<Suc t + ?m]) (map ?ref [Suc t..<Suc t + off]) lid =
            Inr (map ?ref [Suc t..<Suc t + off] @ map ?ref [Suc t + off..<Suc t + ?m],
                 if Suc t + off < Suc t + ?m then int (Suc t + ?m - 1) else lid)"
      by (rule collect_page_upt [OF rt b])
    moreover have "map ?ref [Suc t..<Suc t + off] @ map ?ref [Suc t + off..<Suc t + ?m] =
            map ?ref [Suc t..<Suc t + ?m]"
      using mpos by (intro upt_append_map) simp_all
    ultimately show ?thesis
      using mpos by (simp del: upt_Suc)
  qed
  have len: "length (map ?ref [Suc t..<Suc t + ?m]) = ?m" by simp
  have tr: "truthy (Some (py_str (int off)))" by (rule truthy_py_str)
  from step_below_cap [OF dv lt] have step: "off + 200 \<le> 10000" .
  show ?case
  proof (cases "10000 \<le> ?m")
    case True
    with step have m: "?m = 10000" "min ?c 10000 = 10000" by simp_all
    have "paginate dec (synthetic_store dec sat capped N) ot p (Some (py_str (int off)))
            (map ?ref [Suc t..<Suc t + off]) lid w =
          Some (Inr (map ?ref [Suc t..<Suc t + ?m], int (t + ?m)), ?w1)"
    proof (rule paginate_cap_reached [OF tr c cp])
      show "10000 \<le> length (map ?ref [Suc t..<Suc t + ?m])"
        unfolding len by (rule True)
    qed
    then show ?thesis unfolding m by blast
  next
    case False
    then have small: "\<not> 10000 \<le> length (map ?ref [Suc t..<Suc t + ?m])"
      unfolding len .
    have unfold: "paginate dec (synthetic_store dec sat capped N) ot p (Some (py_str (int off)))
            (map ?ref [Suc t..<Suc t + off]) lid w =
          paginate dec (synthetic_store dec sat capped N) ot ?p' (paging_after ?R)
            (map ?ref [Suc t..<Suc t + ?m]) (int (t + ?m)) ?w1"
      by (rule paginate_continue [OF tr c cp small])
    show ?thesis
    proof (cases "off + 200 < ?c")
      case True
      then have m: "?m = off + 200" by simp
      with False have lt': "off + 200 < 10000" by simp
      have "\<exists>w'. paginate dec (synthetic_store dec sat capped N) ot ?p'
                (Some (py_str (int (off + 200))))
                (map ?ref [Suc t..<Suc t + (off + 200)]) (int (t + ?m)) ?w1 =
              Some (Inr (map ?ref [Suc t..<Suc t + min ?c 10000], int (t + min ?c 10000)), w')"
        using lt dv True lt'
        by (intro less.hyps) (simp_all add: fg lim srt)
      with True m show ?thesis unfolding unfold by simp
    next
      case nomore: False
      then have m: "?m = ?c" by simp
      with False have "min ?c 10000 = ?c" by simp
      moreover from nomore have "paginate dec (synthetic_store dec sat capped N) ot ?p' (paging_after ?R)
            (map ?ref [Suc t..<Suc t + ?m]) (int (t + ?m)) ?w1 =
          Some (Inr (map ?ref [Suc t..<Suc t + ?m], int (t + ?m)), ?w1)"
        by (intro paginate_no_cursor) (simp add: truthy_def)
      ultimately show ?thesis unfolding unfold m by simp
    qed
  qed
qed

lemma search_loop_done:
  assumes "add_id_threshold_filter filters t = Inr cf"
    and "call cl (Post (search_endpoint ot) (SearchBody (create_search_payload cf 200))) w = (Inr resp, w1)"
    and "total resp = 0"
  shows "search_loop py_int cl ot filters acc t w = Some (Inr acc, w1)"
  using assms by (subst search_loop.simps) simp

lemma search_loop_last_leg:
  assumes "add_id_threshold_filter filters t = Inr cf"
    and "call cl (Post (search_endpoint ot) (SearchBody (create_search_payload cf 200))) w = (Inr resp, w1)"
    and "total resp \<noteq> 0"
    and "process_search_batch py_int cl ot resp (create_search_payload cf 200) w1 =
           Some (Inr (batch, lid), w2)"
    and "total resp < 10000"
  shows "search_loop py_int cl ot filters acc t w = Some (Inr (acc @ batch), w2)"
  using assms by (subst search_loop.simps) simp

lemma search_loop_next_leg:
  assumes "add_id_threshold_filter filters t = Inr cf"
    and "call cl (Post (search_endpoint ot) (SearchBody (create_search_payload cf 200))) w = (Inr resp, w1)"
    and "total resp \<noteq> 0"
    and "process_search_batch py_int cl ot resp (create_search_payload cf 200) w1 =
           Some (Inr (batch, lid), w2)"
    and "\<not> total resp < 10000"
  shows "search_loop py_int cl ot filters acc t w =
           search_loop py_int cl ot filters (acc @ batch) lid w2"
  using assms by (subst search_loop.simps) simp

lemma synthetic_store_first_page:
  assumes rt: "\<forall>i\<le>N. dec (py_str (int i)) = Some (int i)"
    and sat: "\<forall>f\<in>set fs. \<forall>i. 1 \<le> i \<and> i \<le> N \<longrightarrow> filter_holds dec sat f i"
    and t: "t \<le> N"
  shows "synthetic_store dec sat capped N
           (Post ep (SearchBody (create_search_payload
              (fs @ [\<lparr>propertyName = ''hs_object_id'', operator = ''GT'',
                       filter_value = Some (py_str (int t))\<rparr>]) 200))) s =
           (Inr \<lparr>total = int (if capped then min (N - t) 10000 else N - t),
                 results = map (\<lambda>i. HsObject (py_str (int i)) [])
                             [Suc t..<Suc t + min 200 (N - t)],
                 paging_after = (if 200 < N - t then Some (py_str (int 200)) else None)\<rparr>, s)"
proof -
  have e: "min (Suc t + 0 + 200) (Suc N) = Suc t + min 200 (N - t)"
    using t by (simp add: min_def) arith
  have "synthetic_store dec sat capped N
           (Post ep (SearchBody (create_search_payload
              (fs @ [\<lparr>propertyName = ''hs_object_id'', operator = ''GT'',
                       filter_value = Some (py_str (int t))\<rparr>]) 200))) s =
           (Inr \<lparr>total = int (if capped then min (N - t) 10000 else N - t),
                 results = map (\<lambda>i. HsObject (py_str (int i)) [])
                             [Suc t + 0..<min (Suc t + 0 + 200) (Suc N)],
                 paging_after = (if 0 + 200 < N - t then Some (py_str (int (0 + 200))) else None)\<rparr>, s)"
    by (rule synthetic_store_page [OF rt sat t]) (simp_all add: create_search_payload_def)
  then show ?thesis
    unfolding e by (simp del: upt_Suc)
qed

lemma leg_synthetic:
  assumes rt: "\<forall>i\<le>N. dec (py_str (int i)) = Some (int i)"
    and sat: "\<forall>f\<in>set fs. \<forall>i. 1 \<le> i \<and> i \<le> N \<longrightarrow> filter_holds dec sat f i"
    and t: "t < N"
  shows "\<exists>w'. process_search_batch dec (synthetic_store dec sat capped N) ot
                 \<lparr>total = tot,
                  results = map (\<lambda>i. HsObject (py_str (int i)) [])
                              [Suc t..<Suc t + min 200 (N - t)],
                  paging_after = (if 200 < N - t then Some (py_str (int 200)) else None)\<rparr>
                 (create_search_payload
                    (fs @ [\<lparr>propertyName = ''hs_object_id'', operator = ''GT'',
                             filter_value = Some (py_str (int t))\<rparr>]) 200) w =
               Some (Inr (map (\<lambda>i. RecordRef (py_str (int i))) [Suc t..<Suc t + min (N - t) 10000],
                          int (t + min (N - t) 10000)), w')"
proof -
  let ?ref = "\<lambda>i. RecordRef (py_str (int i))"
  let ?obj = "\<lambda>i. HsObject (py_str (int i)) []"
  let ?c = "N - t"
  let ?pl = "create_search_payload
                    (fs @ [\<lparr>propertyName = ''hs_object_id'', operator = ''GT'',
                             filter_value = Some (py_str (int t))\<rparr>]) 200"
  from t have tle: "t \<le> N" by simp
  have b: "Suc t + min 200 ?c \<le> Suc N" using t by simp
  have "collect_page dec (map ?obj [Suc t..<Suc t + min 200 ?c]) [] 0 =
          Inr ([] @ map ?ref [Suc t..<Suc t + min 200 ?c],
               if Suc t < Suc t + min 200 ?c then int (Suc t + min 200 ?c - 1) else 0)"
    by (rule collect_page_upt [OF rt b])
  with t have cp: "collect_page dec (map ?obj [Suc t..<Suc t + min 200 ?c]) [] 0 =
          Inr (map ?ref [Suc t..<Suc t + min 200 ?c], int (t + min 200 ?c))"
    by (simp del: upt_Suc)
  show ?thesis
  proof (cases "200 < ?c")
    case True
    then have m: "min 200 ?c = 200" by simp
    have "\<exists>w'. paginate dec (synthetic_store dec sat capped N) ot ?pl (Some (py_str (int 200)))
                 (map ?ref [Suc t..<Suc t + 200]) (int (t + 200)) w =
               Some (Inr (map ?ref [Suc t..<Suc t + min ?c 10000], int (t + min ?c 10000)), w')"
      using True
      by (intro paginate_synthetic [OF rt sat tle]) (simp_all add: create_search_payload_def)
    with True cp show ?thesis
      unfolding process_search_batch_def m by (simp del: upt_Suc)
  next
    case False
    then have m: "min 200 ?c = ?c" "min ?c 10000 = ?c" by simp_all
    from False cp show ?thesis
      unfolding process_search_batch_def m
      by (simp add: paginate_no_cursor truthy_def del: upt_Suc)
  qed
qed

lemma search_loop_synthetic:
  assumes rt: "\<forall>i\<le>N. dec (py_str (int i)) = Some (int i)"
    and sat: "\<forall>f\<in>set fs. \<forall>i. 1 \<le> i \<and> i \<le> N \<longrightarrow> filter_holds dec sat f i"
  shows "t \<le> N \<Longrightarrow>
         \<exists>w'. search_loop dec (synthetic_store dec sat capped N) ot (FilterList fs)
                 (map (\<lambda>i. RecordRef (py_str (int i))) [1..<Suc t]) (int t) w =
               Some (Inr (map (\<lambda>i. RecordRef (py_str (int i))) [1..<Suc N]), w')"
proof (induction "N - t" arbitrary: t w rule: less_induct)
  case less
  let ?ref = "\<lambda>i. RecordRef (py_str (int i))"
  let ?obj = "\<lambda>i. HsObject (py_str (int i)) []"
  let ?c = "N - t"
  let ?cl = "synthetic_store dec sat capped N"
  let ?cf = "fs @ [\<lparr>propertyName = ''hs_object_id'', operator = ''GT'',
                     filter_value = Some (py_str (int t))\<rparr>]"
  let ?req = "Post (search_endpoint ot) (SearchBody (create_search_payload ?cf 200))"
  let ?R = "\<lparr>total = int (if capped then min ?c 10000 else ?c),
             results = map ?obj [Suc t..<Suc t + min 200 ?c],
             paging_after = (if 200 < ?c then Some (py_str (int 200)) else None)\<rparr>"
  let ?w1 = "\<lparr>cstate = cstate w, calls = calls w @ [(?req, Inr ?R)]\<rparr>"
  note t = less.prems
  have add: "add_id_threshold_filter (FilterList fs) (int t) = Inr ?cf"
    by (simp add: add_id_threshold_filter_def)
  have "?cl ?req (cstate w) = (Inr ?R, cstate w)"
    by (rule synthetic_store_first_page [OF rt sat t])
  then have c: "call ?cl ?req w = (Inr ?R, ?w1)"
    by (simp add: call_def)
  show ?case
  proof (cases "t = N")
    case True
    then have "total ?R = 0" by simp
    from search_loop_done [OF add c this, of dec "map ?ref [1..<Suc t]"] True
    show ?thesis by blast
  next
    case False
    with t have tl: "t < N" by simp
    then have nz: "total ?R \<noteq> 0" by simp
    from leg_synthetic [OF rt sat tl, of capped ot "int (if capped then min ?c 10000 else ?c)" ?w1]
    obtain w2 where leg: "process_search_batch dec ?cl ot ?R (create_search_payload ?cf 200) ?w1 =
        Some (Inr (map ?ref [Suc t..<Suc t + min ?c 10000], int (t + min ?c 10000)), w2)"
      by blast
    have app: "map ?ref [1..<Suc t] @ map ?ref [Suc t..<Suc t + min ?c 10000] =
        map ?ref [1..<Suc (t + min ?c 10000)]"
      using upt_append_map [of 1 "Suc t" "Suc t + min ?c 10000" ?ref] by simp
    show ?thesis
    proof (cases "?c < 10000")
      case True
      then have lt: "total ?R < 10000" by simp
      from True tl have fin: "t + min ?c 10000 = N" by simp
      have "search_loop dec ?cl ot (FilterList fs) (map ?ref [1..<Suc t]) (int t) w =
            Some (Inr (map ?ref [1..<Suc t] @ map ?ref [Suc t..<Suc t + min ?c 10000]), w2)"
        by (rule search_loop_last_leg [OF add c nz leg lt])
      also have "\<dots> = Some (Inr (map ?ref [1..<Suc N]), w2)"
        unfolding app fin ..
      finally show ?thesis by blast
    next
      case False
      then have ge: "\<not> total ?R < 10000" by simp
      from False have m: "min ?c 10000 = 10000" by simp
      from False have t': "t + 10000 \<le> N" by simp
      from False tl have "N - (t + 10000) < N - t" by simp
      from less.hyps [OF this t', of w2] obtain w' where
        rec: "search_loop dec ?cl ot (FilterList fs) (map ?ref [1..<Suc (t + 10000)])
                (int (t + 10000)) w2 = Some (Inr (map ?ref [1..<Suc N]), w')"
        by blast
      have "search_loop dec ?cl ot (FilterList fs) (map ?ref [1..<Suc t]) (int t) w =
            search_loop dec ?cl ot (FilterList fs)
              (map ?ref [1..<Suc t] @ map ?ref [Suc t..<Suc t + min ?c 10000])
              (int (t + min ?c 10000)) w2"
        by (rule search_loop_next_leg [OF add c nz leg ge])
      also have "\<dots> = search_loop dec ?cl ot (FilterList fs)
              (map ?ref [1..<Suc (t + 10000)]) (int (t + 10000)) w2"
        using app unfolding m by simp
      also note rec
      finally show ?thesis by blast
    qed
  qed
qed


lemma ref_distinct:
  assumes "\<forall>i\<le>N. py_int (py_str (int i)) = Some (int i)"
  shows "distinct (map (\<lambda>i. RecordRef (py_str (int i))) [1..<Suc N])"
proof -
  have "inj_on (\<lambda>i. RecordRef (py_str (int i))) {1..<Suc N}"
  proof (rule inj_onI)
    fix i j
    assume i: "i \<in> {1..<Suc N}" and j: "j \<in> {1..<Suc N}"
      and eq: "RecordRef (py_str (int i)) = RecordRef (py_str (int j))"
    from i have "i \<le> N" by simp
    with assms have a: "py_int (py_str (int i)) = Some (int i)" by blast
    from j have "j \<le> N" by simp
    with assms have b: "py_int (py_str (int j)) = Some (int j)" by blast
    from eq have e: "py_str (int i) = py_str (int j)" by (simp only: record_ref.inject)
    have "Some (int i) = py_int (py_str (int i))" by (rule a [symmetric])
    also have "\<dots> = py_int (py_str (int j))" by (simp only: e)
    also have "\<dots> = Some (int j)" by (rule b)
    finally have "int i = int j" by (simp only: option.inject)
    then show "i = j" by (simp only: of_nat_eq_iff)
  qed
  then have "inj_on (\<lambda>i. RecordRef (py_str (int i))) (set [1..<Suc N])"
    by (simp only: set_upt)
  moreover have "distinct [1..<Suc N]" by (rule distinct_upt)
  ultimately show ?thesis by (simp only: distinct_map) 
qed

text \<open>
  C1. Against the synthetic store of \<open>N\<close> records with the ids \<open>1..N\<close>, for every \<open>N\<close>, zero
  and any number above \<^verbatim>\<open>LEG_CAP = 10000\<close> included, whether or not the store caps the
  total it reports, and for every list of caller predicates that all \<open>N\<close> records satisfy,
  \<^verbatim>\<open>_search_records\<close> returns, and what it returns is the list of the references \<open>1\<close>,
  \<open>2\<close>, ..., \<open>N\<close>: every id of the store, in ascending order, each exactly once across all
  leg boundaries. \<^verbatim>\<open>int\<close> is asked only to read back the decimal numerals that \<^verbatim>\<open>str\<close>
  writes for \<open>0..N\<close>.
\<close>

theorem search_enumerates_synthetic_store:
  assumes "\<forall>i\<le>N. py_int (py_str (int i)) = Some (int i)"
    and "\<forall>f\<in>set fs. \<forall>i. 1 \<le> i \<and> i \<le> N \<longrightarrow> filter_holds py_int sat f i"
  shows "(\<exists>w'. search_records py_int (synthetic_store py_int sat capped N) ot (FilterList fs) w =
               Some (Inr (map (\<lambda>i. RecordRef (py_str (int i))) [1..<Suc N]), w')) \<and>
         distinct (map (\<lambda>i. RecordRef (py_str (int i))) [1..<Suc N])"
proof
  have e: "map (\<lambda>i. RecordRef (py_str (int i))) [1..<Suc 0] = []" "int 0 = 0"
    by simp_all
  from search_loop_synthetic [OF assms le0, of capped ot w]
  obtain w' where "search_loop py_int (synthetic_store py_int sat capped N) ot (FilterList fs) [] 0 w =
      Some (Inr (map (\<lambda>i. RecordRef (py_str (int i))) [1..<Suc N]), w')"
    unfolding e by (rule exE)
  then have "search_records py_int (synthetic_store py_int sat capped N) ot (FilterList fs) w =
      Some (Inr (map (\<lambda>i. RecordRef (py_str (int i))) [1..<Suc N]), w')"
    by (simp only: search_records_def)
  then show "\<exists>w'. search_records py_int (synthetic_store py_int sat capped N) ot (FilterList fs) w =
               Some (Inr (map (\<lambda>i. RecordRef (py_str (int i))) [1..<Suc N]), w')"
    by (rule exI)
next
  show "distinct (map (\<lambda>i. RecordRef (py_str (int i))) [1..<Suc N])"
    by (rule ref_distinct [OF assms(1)])
qed

theorem search_enumerates_synthetic_store_witness:
  "(\<exists>w'. search_records decimal_int (synthetic_store decimal_int (\<lambda>f i. True) True 10001)
             ''contacts'' (FilterList [build_property_exists_filter ''email''])
             \<lparr>cstate = (), calls = []\<rparr> =
           Some (Inr (map (\<lambda>i. RecordRef (py_str (int i))) [1..<Suc 10001]), w')) \<and>
   distinct (map (\<lambda>i. RecordRef (py_str (int i))) [1..<Suc 10001])"
proof (rule search_enumerates_synthetic_store)
  show "\<forall>i\<le>10001. decimal_int (py_str (int i)) = Some (int i)"
    by (simp only: decimal_int_py_str simp_thms)
  show "\<forall>f\<in>set [build_property_exists_filter ''email'']. \<forall>i. 1 \<le> i \<and> i \<le> 10001 \<longrightarrow>
          filter_holds decimal_int (\<lambda>f i. True) f i"
    by (simp add: filter_holds_def build_property_exists_filter_def)
qed

end
